theory Spec2Isabelle
  imports Complex_Main
begin

section \<open>Outcomes of a call, and programs over a state\<close>

text \<open>
  The exceptions that the model distinguishes. An exception raised inside a call into
  another library (the file system, the environment toolkit, a deserialiser) is
  \<open>External\<close> with its message; the other constructors are raised by the modelled code
  itself.
\<close>

datatype error =
    ConfigurationError
  | ZeroDivisionError
  | UnboundLocalError
  | EmptyTrajectoriesError
  | External string

text \<open>
  A call returns a value, raises, or does not come back (\<open>Diverge\<close>: the rollout loop
  stepping an environment whose episodes never end).
\<close>

datatype 'a result = Return 'a | Raise error | Diverge

type_synonym ('w, 'a) prog = "'w \<Rightarrow> 'a result \<times> 'w"

definition ret :: "'a \<Rightarrow> ('w, 'a) prog" where
  "ret x w = (Return x, w)"

definition raise :: "error \<Rightarrow> ('w, 'a) prog" where
  "raise e w = (Raise e, w)"

definition bindM :: "('w, 'a) prog \<Rightarrow> ('a \<Rightarrow> ('w, 'b) prog) \<Rightarrow> ('w, 'b) prog" where
  "bindM m f w =
     (case m w of
        (Return x, w') \<Rightarrow> f x w'
      | (Raise e, w') \<Rightarrow> (Raise e, w')
      | (Diverge, w') \<Rightarrow> (Diverge, w'))"

text \<open>The outcome of a pure call that may raise.\<close>

definition lift :: "error + 'a \<Rightarrow> ('w, 'a) prog" where
  "lift r w = (case r of Inl e \<Rightarrow> (Raise e, w) | Inr x \<Rightarrow> (Return x, w))"

text \<open>The outcome of a call into another library: its exception is \<open>External\<close>.\<close>

definition ext_call :: "string + 'a \<Rightarrow> ('w, 'a) prog" where
  "ext_call r w = (case r of Inl m \<Rightarrow> (Raise (External m), w) | Inr x \<Rightarrow> (Return x, w))"

section \<open>Vectorized environments and their wrappers\<close>

text \<open>
  What a rendering environment does to the outside world: it draws a frame, and
  \<open>time.sleep\<close> pauses for a number of seconds (Python's float, here a real).
\<close>

datatype effect = Render | Sleep real

text \<open>
  The state the environment chain runs in: the effects performed so far, the state of the
  underlying simulation, and the observations that the reward wrapper remembers from the
  previous call (its field holding the state each reward is computed from).
\<close>

record ('s, 'o) env_world =
  effects :: "effect list"
  sim :: 's
  last_obs :: "'o list"

text \<open>
  The vectorized environment that the environment factory returns belongs to the
  environment toolkit, so its behaviour is a parameter: a state machine over the
  simulation state, each method of which may raise. A step takes the actions submitted by
  \<open>step_async\<close> and yields, for each instance, its observation, reward and done signal
  (the arrays \<open>obs, rews, dones\<close> of the toolkit, read instance by instance).
\<close>

record ('s, 'o, 'a) base_env =
  b_reset :: "'s \<Rightarrow> (string + 'o list) \<times> 's"
  b_step_wait :: "'a list \<Rightarrow> 's \<Rightarrow> (string + ('o \<times> real \<times> bool) list) \<times> 's"
  b_render :: "'s \<Rightarrow> string option"

text \<open>
  The wrapper chain. \<open>InteractiveRender venv fps\<close> is the class of the source with its
  field \<open>render_fps\<close>.

  Modelled from the spec: the class \<open>RewardVecEnvWrapper\<close> of
  \<open>imitation.util.reward_wrapper\<close> is missing from the sources. It wraps a vectorized
  environment and holds the reward function, a map from (state, action, next-state) to a
  scalar reward.
\<close>

datatype ('s, 'o, 'a) venv =
    BaseVenv "('s, 'o, 'a) base_env"
  | InteractiveRender "('s, 'o, 'a) venv" int
  | RewardVecEnvWrapper "('s, 'o, 'a) venv" "'o \<Rightarrow> 'a \<Rightarrow> 'o \<Rightarrow> real"

type_synonym ('o) step_result = "('o \<times> real \<times> bool) list"

definition base_reset :: "('s, 'o, 'a) base_env \<Rightarrow> (('s, 'o) env_world, 'o list) prog" where
  "base_reset b w =
     (case b_reset b (sim w) of
        (Inl m, s') \<Rightarrow> (Raise (External m), w\<lparr>sim := s'\<rparr>)
      | (Inr ob, s') \<Rightarrow> (Return ob, w\<lparr>sim := s'\<rparr>))"

definition base_step_wait ::
  "('s, 'o, 'a) base_env \<Rightarrow> 'a list \<Rightarrow> (('s, 'o) env_world, 'o step_result) prog" where
  "base_step_wait b acts w =
     (case b_step_wait b acts (sim w) of
        (Inl m, s') \<Rightarrow> (Raise (External m), w\<lparr>sim := s'\<rparr>)
      | (Inr r, s') \<Rightarrow> (Return r, w\<lparr>sim := s'\<rparr>))"

definition base_render :: "('s, 'o, 'a) base_env \<Rightarrow> (('s, 'o) env_world, unit) prog" where
  "base_render b w =
     (case b_render b (sim w) of
        Some m \<Rightarrow> (Raise (External m), w)
      | None \<Rightarrow> (Return (), w\<lparr>effects := effects w @ [Render]\<rparr>))"

text \<open>Python's \<open>a / b\<close> on integers: true division, raising on a zero divisor.\<close>

definition py_truediv :: "int \<Rightarrow> int \<Rightarrow> error + real" where
  "py_truediv a b = (if b = 0 then Inl ZeroDivisionError else Inr (real_of_int a / real_of_int b))"

definition time_sleep :: "real \<Rightarrow> (('s, 'o) env_world, unit) prog" where
  "time_sleep d w = (Return (), w\<lparr>effects := effects w @ [Sleep d]\<rparr>)"

text \<open>
  Modelled from the spec: the reward wrapper's recomputation of the rewards of a step,
  missing from the sources: one reward per instance, the reward function applied to the
  instance's previous observation, its action and its new observation.
\<close>

definition override_rewards ::
  "('o \<Rightarrow> 'a \<Rightarrow> 'o \<Rightarrow> real) \<Rightarrow> 'o list \<Rightarrow> 'a list \<Rightarrow> 'o step_result \<Rightarrow> 'o step_result" where
  "override_rewards reward_fn old acts res =
     map (\<lambda>(s, a, (s', r, d)). (s', reward_fn s a s', d)) (zip old (zip acts res))"

definition remember_obs :: "'o list \<Rightarrow> (('s, 'o) env_world, unit) prog" where
  "remember_obs obs w = (Return (), w\<lparr>last_obs := obs\<rparr>)"

definition recall_obs :: "(('s, 'o) env_world, 'o list) prog" where
  "recall_obs w = (Return (last_obs w), w)"

text \<open>
  \<open>render\<close>: \<open>InteractiveRender\<close> does not override it, so the wrapper base class
  forwards it to the wrapped environment; the reward wrapper passes it through.
\<close>

fun venv_render :: "('s, 'o, 'a) venv \<Rightarrow> (('s, 'o) env_world, unit) prog" where
  "venv_render (BaseVenv b) = base_render b"
| "venv_render (InteractiveRender venv fps) = venv_render venv"
| "venv_render (RewardVecEnvWrapper venv reward_fn) = venv_render venv"

text \<open>
  \<open>reset\<close>. \<open>InteractiveRender.reset\<close>: \<open>ob = self.venv.reset(); self.venv.render();
  return ob\<close>.

  Modelled from the spec: \<open>RewardVecEnvWrapper.reset\<close>, missing from the sources, passes
  the reset through and remembers the observations as the state of the next step.
\<close>

fun venv_reset :: "('s, 'o, 'a) venv \<Rightarrow> (('s, 'o) env_world, 'o list) prog" where
  "venv_reset (BaseVenv b) = base_reset b"
| "venv_reset (InteractiveRender venv fps) =
     bindM (venv_reset venv) (\<lambda>ob.
     bindM (venv_render venv) (\<lambda>_.
     ret ob))"
| "venv_reset (RewardVecEnvWrapper venv reward_fn) =
     bindM (venv_reset venv) (\<lambda>ob.
     bindM (remember_obs ob) (\<lambda>_.
     ret ob))"

text \<open>
  \<open>step_wait\<close>. \<open>InteractiveRender.step_wait\<close>: \<open>ob = self.venv.step_wait()\<close>; if
  \<open>self.render_fps > 0\<close> then \<open>time.sleep(1 / self.render_fps)\<close>; \<open>self.venv.render();
  return ob\<close>.

  Modelled from the spec: \<open>RewardVecEnvWrapper.step_wait\<close>, missing from the sources,
  forwards the step, replaces the rewards by those of the reward function and passes
  observations and dones through.
\<close>

fun venv_step_wait ::
  "('s, 'o, 'a) venv \<Rightarrow> 'a list \<Rightarrow> (('s, 'o) env_world, 'o step_result) prog" where
  "venv_step_wait (BaseVenv b) acts = base_step_wait b acts"
| "venv_step_wait (InteractiveRender venv fps) acts =
     bindM (venv_step_wait venv acts) (\<lambda>ob.
     bindM (if fps > 0 then bindM (lift (py_truediv 1 fps)) time_sleep else ret ()) (\<lambda>_.
     bindM (venv_render venv) (\<lambda>_.
     ret ob)))"
| "venv_step_wait (RewardVecEnvWrapper venv reward_fn) acts =
     bindM recall_obs (\<lambda>old_obs.
     bindM (venv_step_wait venv acts) (\<lambda>res.
     bindM (remember_obs (map fst res)) (\<lambda>_.
     ret (override_rewards reward_fn old_obs acts res))))"

text \<open>
  \<open>VecEnv.step\<close> of the environment toolkit: \<open>step_async(actions)\<close>, which hands the
  actions over, then \<open>step_wait()\<close>.
\<close>

definition venv_step ::
  "('s, 'o, 'a) venv \<Rightarrow> 'a list \<Rightarrow> (('s, 'o) env_world, 'o step_result) prog" where
  "venv_step venv acts = venv_step_wait venv acts"

section \<open>Trajectories and the stopping condition\<close>

text \<open>
  Modelled from the spec: the trajectory type of \<open>imitation.data.rollout\<close> is missing
  from the sources. A trajectory is the ordered sequence of the steps of one episode; a
  step holds the observation acted on, the action, the reward and the done signal. The
  model keeps with each step the observation it led to (the next-state that a reward
  override is computed from) and whether the observation acted on came from a reset: the
  first reset of the environment, or the restart of the instance that follows a done.
\<close>

record ('o, 'a) step =
  st_obs :: 'o
  st_act :: 'a
  st_rew :: real
  st_done :: bool
  st_next_obs :: 'o
  st_at_reset :: bool

type_synonym ('o, 'a) trajectory = "('o, 'a) step list"

text \<open>
  Modelled from the spec: the stopping conditions of \<open>imitation.data.rollout\<close> are
  missing from the sources. A stopping condition is a predicate over (elapsed timesteps,
  elapsed episodes); the elapsed timesteps and episodes are those of the completed
  trajectories.
\<close>

type_synonym sample_until = "nat \<Rightarrow> nat \<Rightarrow> bool"

definition min_timesteps :: "int \<Rightarrow> sample_until" where
  "min_timesteps n = (\<lambda>timesteps episodes. n \<le> int timesteps)"

definition min_episodes :: "int \<Rightarrow> sample_until" where
  "min_episodes n = (\<lambda>timesteps episodes. n \<le> int episodes)"

text \<open>
  Modelled from the spec: \<open>rollout.make_sample_until\<close> is missing from the sources.
  Exactly one of the minimum of timesteps and the minimum of episodes must be configured;
  both or neither is a configuration error.
\<close>

definition make_sample_until :: "int option \<Rightarrow> int option \<Rightarrow> error + sample_until" where
  "make_sample_until n_timesteps n_episodes =
     (case (n_timesteps, n_episodes) of
        (Some t, Some k) \<Rightarrow> Inl ConfigurationError
      | (Some t, None) \<Rightarrow> Inr (min_timesteps t)
      | (None, Some k) \<Rightarrow> Inr (min_episodes k)
      | (None, None) \<Rightarrow> Inl ConfigurationError)"

definition total_timesteps :: "('o, 'a) trajectory list \<Rightarrow> nat" where
  "total_timesteps trajs = sum_list (map length trajs)"

definition stop_now :: "sample_until \<Rightarrow> ('o, 'a) trajectory list \<Rightarrow> bool" where
  "stop_now sample_until trajs = sample_until (total_timesteps trajs) (length trajs)"

section \<open>The rollout engine\<close>

text \<open>
  Modelled from the spec: \<open>rollout.generate_trajectories\<close> is missing from the sources.
  The engine repeatedly queries the policy for actions and steps the environment until
  the stopping condition is satisfied, and finishes the episodes still in flight before it
  returns the completed trajectories.

  For each instance of the vectorized environment the engine keeps a slot: the current
  observation, the steps of the episode in progress, whether that episode is recorded
  (\<open>live\<close>), and whether the instance stands at a reset (\<open>fresh\<close>).
\<close>

record ('o, 'a) slot =
  cur :: 'o
  partial :: "('o, 'a) step list"
  live :: bool
  fresh :: bool

text \<open>
  One step of one instance. A live slot records the step; at a done the episode is
  complete and joins the trajectories. The steps of a slot that is not live are dropped.
\<close>

definition record_step ::
  "('o, 'a) slot \<Rightarrow> 'a \<Rightarrow> 'o \<Rightarrow> real \<Rightarrow> bool \<Rightarrow> ('o, 'a) trajectory list \<Rightarrow>
     ('o, 'a) slot \<times> ('o, 'a) trajectory list" where
  "record_step sl a ob r d trajs =
     (if live sl then
        (let st = \<lparr>st_obs = cur sl, st_act = a, st_rew = r, st_done = d,
                   st_next_obs = ob, st_at_reset = fresh sl\<rparr>
         in if d then (\<lparr>cur = ob, partial = [], live = True, fresh = True\<rparr>,
                       trajs @ [partial sl @ [st]])
            else (\<lparr>cur = ob, partial = partial sl @ [st], live = True, fresh = False\<rparr>, trajs))
      else (\<lparr>cur = ob, partial = [], live = False, fresh = d\<rparr>, trajs))"

text \<open>All instances of one vectorized step, in the order of the instances.\<close>

fun record_steps ::
  "(('o, 'a) slot \<times> 'a \<times> 'o \<times> real \<times> bool) list \<Rightarrow> ('o, 'a) trajectory list \<Rightarrow>
     ('o, 'a) slot list \<times> ('o, 'a) trajectory list" where
  "record_steps [] trajs = ([], trajs)"
| "record_steps ((sl, a, ob, r, d) # rest) trajs =
     (case record_step sl a ob r d trajs of
        (sl', trajs') \<Rightarrow>
          (case record_steps rest trajs' of
             (sls', trajs'') \<Rightarrow> (sl' # sls', trajs'')))"

text \<open>
  After a vectorized step: a slot that stands at a reset starts no new episode once the
  stopping condition holds; the episodes in flight go on to their end.
\<close>

definition settle ::
  "sample_until \<Rightarrow> ('o, 'a) trajectory list \<Rightarrow> ('o, 'a) slot \<Rightarrow> ('o, 'a) slot" where
  "settle sample_until trajs sl =
     (if fresh sl \<and> stop_now sample_until trajs then sl\<lparr>live := False\<rparr> else sl)"

definition finished :: "sample_until \<Rightarrow> ('o, 'a) slot list \<Rightarrow> ('o, 'a) trajectory list \<Rightarrow> bool" where
  "finished sample_until slots trajs \<longleftrightarrow>
     stop_now sample_until trajs \<and> \<not> (\<exists>sl \<in> set slots. live sl)"

definition diverge :: "('w, 'a) prog" where
  "diverge w = (Diverge, w)"

text \<open>
  The loop. It may run forever (an episode that never ends), so it carries fuel: the
  number of vectorized steps it may still take; running out of fuel is \<open>Diverge\<close>.
\<close>

fun rollout_loop ::
  "nat \<Rightarrow> ('o \<Rightarrow> 'a) \<Rightarrow> ('s, 'o, 'a) venv \<Rightarrow> sample_until \<Rightarrow> ('o, 'a) slot list \<Rightarrow>
     ('o, 'a) trajectory list \<Rightarrow> (('s, 'o) env_world, ('o, 'a) trajectory list) prog" where
  "rollout_loop 0 policy venv sample_until slots trajs =
     (if finished sample_until slots trajs then ret trajs else diverge)"
| "rollout_loop (Suc n) policy venv sample_until slots trajs =
     (if finished sample_until slots trajs then ret trajs
      else
        (let acts = map (\<lambda>sl. policy (cur sl)) slots
         in bindM (venv_step venv acts) (\<lambda>res.
              (case record_steps (zip slots (zip acts res)) trajs of
                 (slots', trajs') \<Rightarrow>
                   rollout_loop n policy venv sample_until
                     (map (settle sample_until trajs') slots') trajs'))))"

definition start_slot :: "sample_until \<Rightarrow> 'o \<Rightarrow> ('o, 'a) slot" where
  "start_slot sample_until ob =
     \<lparr>cur = ob, partial = [], live = \<not> sample_until 0 0, fresh = True\<rparr>"

definition generate_trajectories ::
  "nat \<Rightarrow> ('o \<Rightarrow> 'a) \<Rightarrow> ('s, 'o, 'a) venv \<Rightarrow> sample_until \<Rightarrow>
     (('s, 'o) env_world, ('o, 'a) trajectory list) prog" where
  "generate_trajectories fuel policy venv sample_until =
     bindM (venv_reset venv) (\<lambda>obs.
     rollout_loop fuel policy venv sample_until (map (start_slot sample_until) obs) [])"

section \<open>The statistics aggregator\<close>

text \<open>
  Modelled from the spec: \<open>rollout.rollout_stats\<close> is missing from the sources. It
  computes the count of the trajectories and the mean and standard deviation of the
  per-episode return and of the per-episode length, and fails on an empty sequence. The
  standard deviation is the sample standard deviation: the square root of the sum of the
  squared deviations from the mean, divided by one less than the number of values (so it
  is 1 for the values 1, 2, 3). For a single value that quotient is 0 / 0, which is no
  number: the standard deviation is then \<open>None\<close>. Python's floats are real numbers
  here.
\<close>

record stats =
  n_traj :: nat
  return_mean :: real
  return_std :: "real option"
  len_mean :: real
  len_std :: "real option"

definition mean :: "real list \<Rightarrow> real" where
  "mean xs = sum_list xs / real (length xs)"

definition std :: "real list \<Rightarrow> real option" where
  "std xs =
     (if length xs < 2 then None
      else Some (sqrt (sum_list (map (\<lambda>x. (x - mean xs)\<^sup>2) xs) / real (length xs - 1))))"

definition episode_return :: "('o, 'a) trajectory \<Rightarrow> real" where
  "episode_return t = sum_list (map st_rew t)"

definition rollout_stats :: "('o, 'a) trajectory list \<Rightarrow> error + stats" where
  "rollout_stats trajs =
     (if trajs = [] then Inl EmptyTrajectoriesError
      else
        (let returns = map episode_return trajs;
             lens = map (\<lambda>t. real (length t)) trajs
         in Inr \<lparr>n_traj = length trajs,
                 return_mean = mean returns, return_std = std returns,
                 len_mean = mean lens, len_std = std lens\<rparr>))"

section \<open>Scoped resources\<close>

text \<open>
  A context manager, seen from the code that uses it: what \<open>__enter__\<close> yields or
  raises, and what \<open>__exit__\<close> does when it is handed the exception in flight (or none):
  it raises, or it returns whether that exception is to be suppressed.
\<close>

record 'r ctx =
  ctx_enter :: "string + 'r"
  ctx_exit :: "error option \<Rightarrow> string + bool"

datatype resource = PolicyRes | RewardRes

text \<open>The calls of a run that the claims speak about, in the order they happen.\<close>

datatype call =
    MakeDirs string
  | BuildSacredSymlink string
  | SetVerbosity
  | LogInfo string
  | MakeVecEnv
  | Acquired resource
  | Released resource "error option"

text \<open>
  The state of a run of the command: the calls made so far, the callbacks registered on
  the \<open>ExitStack\<close> (the most recent first), and the world of the environment.
\<close>

record ('s, 'o) estate =
  calls :: "call list"
  exit_stack :: "(resource \<times> (error option \<Rightarrow> string + bool)) list"
  envw :: "('s, 'o) env_world"

definition log_call :: "call \<Rightarrow> (('s, 'o) estate, unit) prog" where
  "log_call c w = (Return (), w\<lparr>calls := calls w @ [c]\<rparr>)"

definition ext_effect :: "string option \<Rightarrow> ('w, unit) prog" where
  "ext_effect r w = (case r of Some m \<Rightarrow> (Raise (External m), w) | None \<Rightarrow> (Return (), w))"

definition lift_env :: "(('s, 'o) env_world, 'b) prog \<Rightarrow> (('s, 'o) estate, 'b) prog" where
  "lift_env p w = (case p (envw w) of (r, ew) \<Rightarrow> (r, w\<lparr>envw := ew\<rparr>))"

definition set_sim :: "'s \<Rightarrow> (('s, 'o) env_world, unit) prog" where
  "set_sim s w = (Return (), w\<lparr>sim := s\<rparr>)"

text \<open>
  The statement \<open>with c as r: body\<close>. The result is \<open>None\<close> when the body raised and
  \<open>__exit__\<close> suppressed the exception: the statement ends normally, and what the body
  would have assigned is unbound.
\<close>

definition with_ctx ::
  "resource \<Rightarrow> 'r ctx \<Rightarrow> ('r \<Rightarrow> (('s, 'o) estate, 'b) prog) \<Rightarrow> (('s, 'o) estate, 'b option) prog" where
  "with_ctx res c body =
     bindM (ext_call (ctx_enter c)) (\<lambda>r.
     bindM (log_call (Acquired res)) (\<lambda>_.
     (\<lambda>w. case body r w of
        (Return b, w1) \<Rightarrow>
          bindM (log_call (Released res None)) (\<lambda>_.
          bindM (ext_call (ctx_exit c None)) (\<lambda>_.
          ret (Some b))) w1
      | (Raise e, w1) \<Rightarrow>
          bindM (log_call (Released res (Some e))) (\<lambda>_.
          bindM (ext_call (ctx_exit c (Some e))) (\<lambda>suppress.
          if suppress then ret None else raise e)) w1
      | (Diverge, w1) \<Rightarrow> (Diverge, w1))))"

text \<open>
  \<open>contextlib.ExitStack\<close>. \<open>enter_context\<close> enters the context manager and, when that
  succeeds, registers its \<open>__exit__\<close>. Leaving the stack calls the registered callbacks,
  last in first out, each with the exception then in flight: a callback that raises
  replaces it, a callback that returns true clears it.
\<close>

definition push_exit ::
  "resource \<times> (error option \<Rightarrow> string + bool) \<Rightarrow> (('s, 'o) estate, unit) prog" where
  "push_exit cb w = (Return (), w\<lparr>exit_stack := cb # exit_stack w\<rparr>)"

definition set_stack ::
  "(resource \<times> (error option \<Rightarrow> string + bool)) list \<Rightarrow> (('s, 'o) estate, unit) prog" where
  "set_stack cbs w = (Return (), w\<lparr>exit_stack := cbs\<rparr>)"

definition enter_context :: "resource \<Rightarrow> 'r ctx \<Rightarrow> (('s, 'o) estate, 'r) prog" where
  "enter_context res c =
     bindM (ext_call (ctx_enter c)) (\<lambda>r.
     bindM (log_call (Acquired res)) (\<lambda>_.
     bindM (push_exit (res, ctx_exit c)) (\<lambda>_.
     ret r)))"

fun unwind ::
  "(resource \<times> (error option \<Rightarrow> string + bool)) list \<Rightarrow> error option \<Rightarrow>
     (('s, 'o) estate, error option) prog" where
  "unwind [] exc = ret exc"
| "unwind ((res, cb) # rest) exc =
     bindM (log_call (Released res exc)) (\<lambda>_.
     (case cb exc of
        Inl m \<Rightarrow> unwind rest (Some (External m))
      | Inr suppress \<Rightarrow> unwind rest (if suppress then None else exc)))"

definition with_exit_stack ::
  "(('s, 'o) estate, 'b) prog \<Rightarrow> (('s, 'o) estate, 'b option) prog" where
  "with_exit_stack body =
     bindM (set_stack []) (\<lambda>_.
     (\<lambda>w. case body w of
        (Return b, w1) \<Rightarrow>
          bindM (unwind (exit_stack w1) None) (\<lambda>exc.
          case exc of None \<Rightarrow> ret (Some b) | Some e \<Rightarrow> raise e) (w1\<lparr>exit_stack := []\<rparr>)
      | (Raise e, w1) \<Rightarrow>
          bindM (unwind (exit_stack w1) (Some e)) (\<lambda>exc.
          case exc of None \<Rightarrow> ret None | Some e' \<Rightarrow> raise e') (w1\<lparr>exit_stack := []\<rparr>)
      | (Diverge, w1) \<Rightarrow> (Diverge, w1)))"

section \<open>The command\<close>

text \<open>The arguments of \<open>eval_policy\<close> (\<open>_run\<close> is only handed on to the symlink helper).\<close>

record config =
  seed :: int
  env_name :: string
  eval_n_timesteps :: "int option"
  eval_n_episodes :: "int option"
  num_vec :: int
  parallel :: bool
  render :: bool
  render_fps :: int
  log_dir :: string
  policy_type :: string
  policy_path :: string
  reward_type :: "string option"
  reward_path :: "string option"
  max_episode_steps :: "int option"

text \<open>
  What \<open>eval_policy\<close> calls and the sources do not hold: the file system, the symlink
  helper, the environment factory (it yields the environment and the initial state of its
  simulation), the loaders of the reward and of the policy, each with the outcome of the
  call; and the three functions of \<open>imitation.data.rollout\<close>, whose models from the spec
  are \<open>make_sample_until\<close>, \<open>generate_trajectories\<close> and \<open>rollout_stats\<close>.
\<close>

record ('s, 'o, 'a) ext =
  x_makedirs :: "string \<Rightarrow> string option"
  x_build_sacred_symlink :: "string \<Rightarrow> string option"
  x_make_sample_until :: "int option \<Rightarrow> int option \<Rightarrow> error + sample_until"
  x_make_vec_env ::
    "string \<Rightarrow> int \<Rightarrow> int \<Rightarrow> bool \<Rightarrow> string \<Rightarrow> int option \<Rightarrow> string + (('s, 'o, 'a) base_env \<times> 's)"
  x_load_reward ::
    "string \<Rightarrow> string option \<Rightarrow> ('s, 'o, 'a) venv \<Rightarrow> string + ('o \<Rightarrow> 'a \<Rightarrow> 'o \<Rightarrow> real) ctx"
  x_load_policy :: "string \<Rightarrow> string \<Rightarrow> ('s, 'o, 'a) venv \<Rightarrow> string + ('o \<Rightarrow> 'a) ctx"
  x_generate_trajectories ::
    "('o \<Rightarrow> 'a) \<Rightarrow> ('s, 'o, 'a) venv \<Rightarrow> sample_until \<Rightarrow>
       (('s, 'o) env_world, ('o, 'a) trajectory list) prog"
  x_rollout_stats :: "('o, 'a) trajectory list \<Rightarrow> error + stats"

definition py_str :: "string option \<Rightarrow> string" where
  "py_str p = (case p of None \<Rightarrow> ''None'' | Some s \<Rightarrow> s)"

text \<open>
  The block \<open>with contextlib.ExitStack() as stack:\<close> of \<open>eval_policy\<close>, from the
  environment built so far and the stopping condition. Its value is what the block leaves
  in the local \<open>trajs\<close>: bound only when the inner \<open>with\<close> ran its body to the end.
\<close>

definition collect_trajs ::
  "('s, 'o, 'a) ext \<Rightarrow> config \<Rightarrow> ('s, 'o, 'a) venv \<Rightarrow> sample_until \<Rightarrow>
     (('s, 'o) estate, ('o, 'a) trajectory list option option) prog" where
  "collect_trajs x c venv1 sample_until =
     with_exit_stack (
        bindM (case reward_type c of
                 None \<Rightarrow> ret venv1
               | Some rt \<Rightarrow>
                   bindM (ext_call (x_load_reward x rt (reward_path c) venv1)) (\<lambda>reward_fn_ctx.
                   bindM (enter_context RewardRes reward_fn_ctx) (\<lambda>reward_fn.
                   bindM (log_call (LogInfo (''Wrapped env in reward '' @ rt @ '' from ''
                                              @ py_str (reward_path c) @ ''.''))) (\<lambda>_.
                   ret (RewardVecEnvWrapper venv1 reward_fn))))) (\<lambda>venv.
        bindM (ext_call (x_load_policy x (policy_type c) (policy_path c) venv)) (\<lambda>policy_ctx.
        with_ctx PolicyRes policy_ctx (\<lambda>policy.
          lift_env (x_generate_trajectories x policy venv sample_until)))))"

text \<open>
  \<open>eval_policy\<close>, statement by statement. Reading the local \<open>trajs\<close> unbound at the
  \<open>return\<close> raises.
\<close>

definition eval_policy ::
  "('s, 'o, 'a) ext \<Rightarrow> config \<Rightarrow> (('s, 'o) estate, stats) prog" where
  "eval_policy x c =
     bindM (log_call (MakeDirs (log_dir c))) (\<lambda>_.
     bindM (ext_effect (x_makedirs x (log_dir c))) (\<lambda>_.
     bindM (log_call (BuildSacredSymlink (log_dir c))) (\<lambda>_.
     bindM (ext_effect (x_build_sacred_symlink x (log_dir c))) (\<lambda>_.
     bindM (log_call SetVerbosity) (\<lambda>_.
     bindM (log_call (LogInfo (''Logging to '' @ log_dir c))) (\<lambda>_.
     bindM (lift (x_make_sample_until x (eval_n_timesteps c) (eval_n_episodes c))) (\<lambda>sample_until.
     bindM (log_call MakeVecEnv) (\<lambda>_.
     bindM (ext_call (x_make_vec_env x (env_name c) (num_vec c) (seed c) (parallel c)
                        (log_dir c) (max_episode_steps c))) (\<lambda>(b, s0).
     bindM (lift_env (set_sim s0)) (\<lambda>_.
     (let venv0 = BaseVenv b;
          venv1 = (if render c then InteractiveRender venv0 (render_fps c) else venv0)
      in
     bindM (collect_trajs x c venv1 sample_until) (\<lambda>bound.
     (case bound of
        Some (Some trajs) \<Rightarrow> lift (x_rollout_stats x trajs)
      | _ \<Rightarrow> raise UnboundLocalError)))))))))))))"

text \<open>
  The environment that the block hands to the policy loader and to the rollout engine:
  the environment built so far, inside the reward wrapper when a reward type is given and
  its reward function was loaded and entered.
\<close>

definition wrapped_venv ::
  "('s, 'o, 'a) ext \<Rightarrow> config \<Rightarrow> ('s, 'o, 'a) venv \<Rightarrow> ('s, 'o, 'a) venv \<Rightarrow> bool" where
  "wrapped_venv x c venv1 venv \<longleftrightarrow>
     (case reward_type c of
        None \<Rightarrow> venv = venv1
      | Some rt \<Rightarrow>
          (\<exists>reward_fn_ctx reward_fn.
             x_load_reward x rt (reward_path c) venv1 = Inr reward_fn_ctx
           \<and> ctx_enter reward_fn_ctx = Inr reward_fn
           \<and> venv = RewardVecEnvWrapper venv1 reward_fn))"

definition rendered_venv :: "config \<Rightarrow> ('s, 'o, 'a) base_env \<Rightarrow> ('s, 'o, 'a) venv" where
  "rendered_venv c b =
     (if render c then InteractiveRender (BaseVenv b) (render_fps c) else BaseVenv b)"

text \<open>
  The calls of a run up to the validation of the stopping condition, and what the block
  can add to the calls: nothing, or acquisitions each followed by its release.
\<close>

definition prelude :: "config \<Rightarrow> call list" where
  "prelude c = [MakeDirs (log_dir c), BuildSacredSymlink (log_dir c), SetVerbosity,
                LogInfo (''Logging to '' @ log_dir c)]"

definition stack_shape :: "call list \<Rightarrow> bool" where
  "stack_shape es \<longleftrightarrow>
     es = []
   \<or> (\<exists>e. es = [Acquired PolicyRes, Released PolicyRes e])
   \<or> (\<exists>m e'. es = [Acquired RewardRes, LogInfo m, Released RewardRes e'])
   \<or> (\<exists>m e e'. es = [Acquired RewardRes, LogInfo m, Acquired PolicyRes, Released PolicyRes e,
                      Released RewardRes e'])"

text \<open>Every acquisition in a sequence of calls is followed by a release of that resource.\<close>

fun is_release :: "resource \<Rightarrow> call \<Rightarrow> bool" where
  "is_release r (Released r' e) = (r' = r)"
| "is_release r _ = False"

fun all_released :: "call list \<Rightarrow> bool" where
  "all_released [] = True"
| "all_released (c # cs) =
     (case c of
        Acquired r \<Rightarrow> list_ex (is_release r) cs \<and> all_released cs
      | _ \<Rightarrow> all_released cs)"

section \<open>A small environment for concrete runs\<close>

text \<open>
  An environment to run the definitions on: the state holds, for each instance, the number
  of steps taken in its episode; every episode lasts two steps, every native reward is 1,
  and the observation is the step count.
\<close>

definition demo_env :: "(nat list, nat, nat) base_env" where
  "demo_env = \<lparr>
     b_reset = (\<lambda>s. (Inr (map (\<lambda>_. 0) s), map (\<lambda>_. 0) s)),
     b_step_wait = (\<lambda>acts s.
        (Inr (map (\<lambda>k. (if Suc k = 2 then 0 else Suc k, 1, Suc k = 2)) s),
         map (\<lambda>k. if Suc k = 2 then 0 else Suc k) s)),
     b_render = (\<lambda>s. None)\<rparr>"

definition demo_world :: "(nat list, nat) env_world" where
  "demo_world = \<lparr>effects = [], sim = [0, 1], last_obs = []\<rparr>"

definition demo_step :: "real \<Rightarrow> (nat, nat) step" where
  "demo_step r =
     \<lparr>st_obs = 0, st_act = 0, st_rew = r, st_done = True, st_next_obs = 0, st_at_reset = True\<rparr>"

text \<open>
  A run of the command on the small environment: a policy that always plays 0, a reward
  function that is constantly 5, two episodes asked for, rendering on with no frame-rate
  cap. A second environment crashes at its first step.
\<close>

definition demo_policy_ctx :: "(nat \<Rightarrow> nat) ctx" where
  "demo_policy_ctx = \<lparr>ctx_enter = Inr (\<lambda>ob. 0), ctx_exit = (\<lambda>exc. Inr False)\<rparr>"

definition demo_reward_ctx :: "(nat \<Rightarrow> nat \<Rightarrow> nat \<Rightarrow> real) ctx" where
  "demo_reward_ctx = \<lparr>ctx_enter = Inr (\<lambda>s a s'. 5), ctx_exit = (\<lambda>exc. Inr False)\<rparr>"

definition demo_ext :: "nat \<Rightarrow> (nat list, nat, nat) ext" where
  "demo_ext fuel = \<lparr>
     x_makedirs = (\<lambda>d. None),
     x_build_sacred_symlink = (\<lambda>d. None),
     x_make_sample_until = make_sample_until,
     x_make_vec_env = (\<lambda>name n sd par dir cap. Inr (demo_env, [0, 0])),
     x_load_reward = (\<lambda>t p venv. Inr demo_reward_ctx),
     x_load_policy = (\<lambda>t p venv. Inr demo_policy_ctx),
     x_generate_trajectories = generate_trajectories fuel,
     x_rollout_stats = rollout_stats\<rparr>"

definition crash_env :: "(nat list, nat, nat) base_env" where
  "crash_env = \<lparr>
     b_reset = (\<lambda>s. (Inr (map (\<lambda>_. 0) s), s)),
     b_step_wait = (\<lambda>acts s. (Inl ''crash'', s)),
     b_render = (\<lambda>s. None)\<rparr>"

definition crash_ext :: "nat \<Rightarrow> (nat list, nat, nat) ext" where
  "crash_ext fuel =
     (demo_ext fuel)\<lparr>x_make_vec_env := (\<lambda>name n sd par dir cap. Inr (crash_env, [0, 0]))\<rparr>"

definition demo_config :: config where
  "demo_config = \<lparr>
     seed = 0, env_name = ''Demo-v0'', eval_n_timesteps = None, eval_n_episodes = Some 2,
     num_vec = 2, parallel = False, render = True, render_fps = 0, log_dir = ''out'',
     policy_type = ''ppo2'', policy_path = ''policy'', reward_type = Some ''const'',
     reward_path = None, max_episode_steps = None\<rparr>"

definition demo_state :: "(nat list, nat) estate" where
  "demo_state = \<lparr>calls = [], exit_stack = [],
                  envw = \<lparr>effects = [], sim = [], last_obs = []\<rparr>\<rparr>"

section \<open>Well-formed trajectories\<close>

text \<open>
  Consecutive steps of a trajectory follow each other: each step acts on the observation
  that the step before led to.
\<close>

fun chained :: "('o, 'a) trajectory \<Rightarrow> bool" where
  "chained (s1 # s2 # rest) = (st_next_obs s1 = st_obs s2 \<and> chained (s2 # rest))"
| "chained _ = True"

text \<open>
  A well-formed trajectory is one whole episode: it has a first step, which starts at a
  reset, no later step does; its last step carries the done signal, no earlier step does;
  and its steps follow each other.
\<close>

definition well_formed :: "('o, 'a) trajectory \<Rightarrow> bool" where
  "well_formed t \<longleftrightarrow>
     t \<noteq> []
   \<and> st_at_reset (hd t) \<and> (\<forall>s \<in> set (tl t). \<not> st_at_reset s)
   \<and> st_done (last t) \<and> (\<forall>s \<in> set (butlast t). \<not> st_done s)
   \<and> chained t"

text \<open>
  What the engine keeps true of a live slot: it stands at a reset exactly when no step
  of the episode in progress is recorded; the recorded steps are the beginning of a
  well-formed trajectory, and the last of them led to the current observation.
\<close>

definition slot_ok :: "('o, 'a) slot \<Rightarrow> bool" where
  "slot_ok sl \<longleftrightarrow>
     (live sl \<longrightarrow>
        (fresh sl \<longleftrightarrow> partial sl = [])
      \<and> (\<forall>s \<in> set (partial sl). \<not> st_done s)
      \<and> chained (partial sl)
      \<and> (partial sl \<noteq> [] \<longrightarrow>
            st_at_reset (hd (partial sl)) \<and> (\<forall>s \<in> set (tl (partial sl)). \<not> st_at_reset s)
          \<and> st_next_obs (last (partial sl)) = cur sl))"

text \<open>
  A second small environment, whose instances have episodes of different lengths: the
  state holds, for each instance, the number of steps taken in its episode and the length
  of its episodes.
\<close>

definition staggered_env :: "((nat \<times> nat) list, nat, nat) base_env" where
  "staggered_env = \<lparr>
     b_reset = (\<lambda>s. (Inr (map (\<lambda>_. 0) s), map (\<lambda>(k, n). (0, n)) s)),
     b_step_wait = (\<lambda>acts s.
        (Inr (map (\<lambda>(k, n). (if Suc k = n then 0 else Suc k, 1, Suc k = n)) s),
         map (\<lambda>(k, n). (if Suc k = n then 0 else Suc k, n)) s)),
     b_render = (\<lambda>s. None)\<rparr>"

definition staggered_world :: "((nat \<times> nat) list, nat) env_world" where
  "staggered_world = \<lparr>effects = [], sim = [(0, 1), (0, 3)], last_obs = []\<rparr>"

section \<open>The reward override in the rollout\<close>

text \<open>
  A step whose reward is the value of the reward function on its state, action and
  next-state.
\<close>

definition rewarded :: "('o \<Rightarrow> 'a \<Rightarrow> 'o \<Rightarrow> real) \<Rightarrow> ('o, 'a) step \<Rightarrow> bool" where
  "rewarded reward_fn s \<longleftrightarrow> st_rew s = reward_fn (st_obs s) (st_act s) (st_next_obs s)"

text \<open>
  A step, a slot and a world with what the reward wrapper changes left out: the reward,
  and the observations that the wrapper remembers. An environment is plain when no reward
  wrapper is in its chain.
\<close>

definition strip :: "('o, 'a) step \<Rightarrow> ('o, 'a) step" where
  "strip s = s\<lparr>st_rew := 0\<rparr>"

definition strip_slot :: "('o, 'a) slot \<Rightarrow> ('o, 'a) slot" where
  "strip_slot sl = sl\<lparr>partial := map strip (partial sl)\<rparr>"

fun plain :: "('s, 'o, 'a) venv \<Rightarrow> bool" where
  "plain (BaseVenv b) = True"
| "plain (InteractiveRender venv fps) = plain venv"
| "plain (RewardVecEnvWrapper venv reward_fn) = False"

text \<open>A program over the world of the environment that neither reads nor writes the
  observations that the reward wrapper remembers.\<close>

definition obs_indep :: "(('s, 'o) env_world, 'b) prog \<Rightarrow> bool" where
  "obs_indep p \<longleftrightarrow>
     (\<forall>w L. p (w\<lparr>last_obs := L\<rparr>) = (case p w of (r, w1) \<Rightarrow> (r, w1\<lparr>last_obs := L\<rparr>)))"

text \<open>Two recorded steps of one instance that agree in all but the reward.\<close>

definition zrel ::
  "('o, 'a) slot \<times> 'a \<times> 'o \<times> real \<times> bool \<Rightarrow> ('o, 'a) slot \<times> 'a \<times> 'o \<times> real \<times> bool \<Rightarrow> bool" where
  "zrel z z0 \<longleftrightarrow>
     (case (z, z0) of ((sl, a, ob, r, d), (sl0, a0, ob0, r0, d0)) \<Rightarrow>
        strip_slot sl = strip_slot sl0 \<and> a = a0 \<and> ob = ob0 \<and> d = d0)"

section \<open>Reasoning about programs\<close>

lemma bindM_Return:
  "bindM m f w = (Return y, w') \<longleftrightarrow> (\<exists>x w1. m w = (Return x, w1) \<and> f x w1 = (Return y, w'))"
  by (auto simp: bindM_def split: prod.splits result.splits)

lemma bindM_Raise:
  "bindM m f w = (Raise e, w') \<longleftrightarrow>
     m w = (Raise e, w') \<or> (\<exists>x w1. m w = (Return x, w1) \<and> f x w1 = (Raise e, w'))"
  by (auto simp: bindM_def split: prod.splits result.splits)

lemma bindM_Diverge:
  "bindM m f w = (Diverge, w') \<longleftrightarrow>
     m w = (Diverge, w') \<or> (\<exists>x w1. m w = (Return x, w1) \<and> f x w1 = (Diverge, w'))"
  by (auto simp: bindM_def split: prod.splits result.splits)

lemma bindM_eval:
  "m w = (Return x, w1) \<Longrightarrow> bindM m f w = f x w1"
  "m w = (Raise e, w1) \<Longrightarrow> bindM m f w = (Raise e, w1)"
  "m w = (Diverge, w1) \<Longrightarrow> bindM m f w = (Diverge, w1)"
  by (simp_all add: bindM_def)

lemma ret_eq: "ret x w = (r, w') \<longleftrightarrow> r = Return x \<and> w' = w"
  by (auto simp: ret_def)

lemma venv_render_Return:
  "venv_render venv w = (Return u, w') \<Longrightarrow> w' = w\<lparr>effects := effects w @ [Render]\<rparr>"
  by (induction venv) (auto simp: base_render_def split: option.splits)

lemma venv_render_outcome:
  "venv_render venv w = (r, w') \<Longrightarrow>
     (r = Return () \<and> w' = w\<lparr>effects := effects w @ [Render]\<rparr>) \<or> (\<exists>m. r = Raise (External m) \<and> w' = w)"
  by (induction venv) (auto simp: base_render_def split: option.splits)

lemma venv_step_wait_raises_External:
  "venv_step_wait venv acts w = (Raise e, w') \<Longrightarrow> \<exists>m. e = External m"
proof (induction venv arbitrary: w w' acts)
  case (BaseVenv b)
  then show ?case by (auto simp: base_step_wait_def split: prod.splits sum.splits)
next
  case (InteractiveRender venv fps)
  then show ?case
    by (auto simp: bindM_Raise ret_def lift_def py_truediv_def time_sleep_def
          dest!: venv_render_outcome split: if_splits)
next
  case (RewardVecEnvWrapper venv rfn)
  then show ?case
    by (auto simp: bindM_Raise ret_def recall_obs_def remember_obs_def split: prod.splits)
qed

lemma venv_reset_raises_External:
  "venv_reset venv w = (Raise e, w') \<Longrightarrow> \<exists>m. e = External m"
proof (induction venv arbitrary: w w')
  case (BaseVenv b)
  then show ?case by (auto simp: base_reset_def split: prod.splits sum.splits)
next
  case (InteractiveRender venv fps)
  then show ?case
    by (auto simp: bindM_Raise ret_def dest!: venv_render_outcome)
next
  case (RewardVecEnvWrapper venv rfn)
  then show ?case
    by (auto simp: bindM_Raise ret_def remember_obs_def)
qed

lemmas demo_simps =
  demo_env_def demo_world_def bindM_def base_step_wait_def base_reset_def base_render_def
  lift_def py_truediv_def time_sleep_def ret_def

section \<open>The interactive render wrapper\<close>

text \<open>
  Claim C6. \<open>InteractiveRender\<close> is a pass-through with side effects only. When its
  \<open>reset\<close> returns, it returns the observations that the reset of the wrapped environment
  returned, and the state is the one that reset left, with one render added. When its
  \<open>step_wait\<close> returns, it returns the step result of the wrapped environment unchanged
  (observations, rewards and dones), and the state is the one that step left, with a sleep
  of \<open>1 / render_fps\<close> added when \<open>render_fps\<close> is positive, and then one render.
\<close>

theorem interactive_render_pass_through:
  "(venv_reset (InteractiveRender venv fps) w = (Return ob, w') \<longrightarrow>
      (\<exists>w1. venv_reset venv w = (Return ob, w1) \<and> w' = w1\<lparr>effects := effects w1 @ [Render]\<rparr>))
   \<and> (venv_step_wait (InteractiveRender venv fps) acts w = (Return r, w') \<longrightarrow>
      (\<exists>w1. venv_step_wait venv acts w = (Return r, w1)
          \<and> w' = w1\<lparr>effects := effects w1
                      @ (if fps > 0 then [Sleep (1 / real_of_int fps)] else []) @ [Render]\<rparr>))"
  by (auto simp: bindM_Return ret_eq lift_def py_truediv_def time_sleep_def
       dest!: venv_render_Return split: if_splits)

theorem interactive_render_pass_through_witness:
  "venv_reset (InteractiveRender (BaseVenv demo_env) 2) demo_world
     = (Return [0, 0], \<lparr>effects = [Render], sim = [0, 0], last_obs = []\<rparr>)
   \<and> venv_step_wait (InteractiveRender (BaseVenv demo_env) 2) [0, 0] demo_world
     = (Return [(1, 1, False), (0, 1, True)],
        \<lparr>effects = [Sleep (1 / 2), Render], sim = [1, 0], last_obs = []\<rparr>)
   \<and> (\<exists>w1. venv_reset (BaseVenv demo_env) demo_world = (Return [0, 0], w1)
         \<and> \<lparr>effects = [Render], sim = [0, 0], last_obs = []\<rparr> = w1\<lparr>effects := effects w1 @ [Render]\<rparr>)
   \<and> (\<exists>w1. venv_step_wait (BaseVenv demo_env) [0, 0] demo_world
               = (Return [(1, 1, False), (0, 1, True)], w1)
         \<and> \<lparr>effects = [Sleep (1 / 2), Render], sim = [1, 0], last_obs = []\<rparr>
             = w1\<lparr>effects := effects w1 @ [Sleep (1 / 2)] @ [Render]\<rparr>)"
proof -
  have r: "venv_reset (InteractiveRender (BaseVenv demo_env) 2) demo_world
     = (Return [0, 0], \<lparr>effects = [Render], sim = [0, 0], last_obs = []\<rparr>)"
    by (simp add: demo_simps)
  have s: "venv_step_wait (InteractiveRender (BaseVenv demo_env) 2) [0, 0] demo_world
     = (Return [(1, 1, False), (0, 1, True)],
        \<lparr>effects = [Sleep (1 / 2), Render], sim = [1, 0], last_obs = []\<rparr>)"
    by (simp add: demo_simps)
  from r s interactive_render_pass_through
         [of "BaseVenv demo_env" 2 demo_world "[0, 0]"
             "\<lparr>effects = [Render], sim = [0, 0], last_obs = []\<rparr>"]
       interactive_render_pass_through
         [of "BaseVenv demo_env" 2 demo_world _
             "\<lparr>effects = [Sleep (1 / 2), Render], sim = [1, 0], last_obs = []\<rparr>"
             "[0, 0]" "[(1, 1, False), (0, 1, True)]"]
  show ?thesis by simp
qed

text \<open>
  Claim C10. For every \<open>render_fps\<close> that is not positive (0 included),
  \<open>InteractiveRender.step_wait\<close> is the step of the wrapped environment followed by the
  render: it performs no sleep, so the state it leaves has the effects of the wrapped step
  and at most the render after them. For a positive \<open>render_fps\<close> it sleeps
  \<open>1 / render_fps\<close> seconds between the two. The division is evaluated only under the
  guard, so \<open>step_wait\<close> never raises a division by zero.
\<close>

theorem step_wait_sleeps_only_for_positive_fps:
  "(fps \<le> 0 \<longrightarrow>
      venv_step_wait (InteractiveRender venv fps) acts w =
        bindM (venv_step_wait venv acts) (\<lambda>ob. bindM (venv_render venv) (\<lambda>_. ret ob)) w
      \<and> (\<exists>r1 w1. venv_step_wait venv acts w = (r1, w1) \<and>
            (effects (snd (venv_step_wait (InteractiveRender venv fps) acts w)) = effects w1
             \<or> effects (snd (venv_step_wait (InteractiveRender venv fps) acts w))
                 = effects w1 @ [Render])))
   \<and> (fps > 0 \<longrightarrow>
      venv_step_wait (InteractiveRender venv fps) acts w =
        bindM (venv_step_wait venv acts) (\<lambda>ob.
        bindM (time_sleep (1 / real_of_int fps)) (\<lambda>_.
        bindM (venv_render venv) (\<lambda>_. ret ob))) w)
   \<and> fst (venv_step_wait (InteractiveRender venv fps) acts w) \<noteq> Raise ZeroDivisionError"
proof (intro conjI impI)
  assume fps: "fps \<le> 0"
  then show eq: "venv_step_wait (InteractiveRender venv fps) acts w =
        bindM (venv_step_wait venv acts) (\<lambda>ob. bindM (venv_render venv) (\<lambda>_. ret ob)) w"
    by (simp add: bindM_def ret_def split: prod.splits result.splits)
  obtain r1 w1 where inner: "venv_step_wait venv acts w = (r1, w1)"
    by (cases "venv_step_wait venv acts w")
  obtain r2 w2 where rend: "venv_render venv w1 = (r2, w2)"
    by (cases "venv_render venv w1")
  from venv_render_outcome[OF rend]
  have "effects (snd (venv_step_wait (InteractiveRender venv fps) acts w)) = effects w1
          \<or> effects (snd (venv_step_wait (InteractiveRender venv fps) acts w))
              = effects w1 @ [Render]"
    unfolding eq using inner rend
    by (cases r1) (auto simp: bindM_def ret_def)
  with inner show "\<exists>r1 w1. venv_step_wait venv acts w = (r1, w1) \<and>
            (effects (snd (venv_step_wait (InteractiveRender venv fps) acts w)) = effects w1
             \<or> effects (snd (venv_step_wait (InteractiveRender venv fps) acts w))
                 = effects w1 @ [Render])"
    by blast
next
  assume "fps > 0"
  then show "venv_step_wait (InteractiveRender venv fps) acts w =
        bindM (venv_step_wait venv acts) (\<lambda>ob.
        bindM (time_sleep (1 / real_of_int fps)) (\<lambda>_.
        bindM (venv_render venv) (\<lambda>_. ret ob))) w"
    by (simp add: bindM_def ret_def lift_def py_truediv_def split: prod.splits result.splits)
next
  show "fst (venv_step_wait (InteractiveRender venv fps) acts w) \<noteq> Raise ZeroDivisionError"
  proof
    assume "fst (venv_step_wait (InteractiveRender venv fps) acts w) = Raise ZeroDivisionError"
    then obtain w' where
      "venv_step_wait (InteractiveRender venv fps) acts w = (Raise ZeroDivisionError, w')"
      by (cases "venv_step_wait (InteractiveRender venv fps) acts w") auto
    from venv_step_wait_raises_External[OF this] show False by simp
  qed
qed

theorem step_wait_sleeps_only_for_positive_fps_witness:
  "(0::int) \<le> 0 \<and> (2::int) > 0
   \<and> venv_step_wait (InteractiveRender (BaseVenv demo_env) 0) [0, 0] demo_world
       = (Return [(1, 1, False), (0, 1, True)],
          \<lparr>effects = [Render], sim = [1, 0], last_obs = []\<rparr>)
   \<and> venv_step_wait (InteractiveRender (BaseVenv demo_env) 2) [0, 0] demo_world
       = (Return [(1, 1, False), (0, 1, True)],
          \<lparr>effects = [Sleep (1 / 2), Render], sim = [1, 0], last_obs = []\<rparr>)"
  using step_wait_sleeps_only_for_positive_fps [of 0 "BaseVenv demo_env" "[0, 0]" demo_world]
        step_wait_sleeps_only_for_positive_fps [of 2 "BaseVenv demo_env" "[0, 0]" demo_world]
  by (simp add: demo_simps)

section \<open>The statistics aggregator: properties\<close>

lemma mean_times_length: "xs \<noteq> [] \<Longrightarrow> mean xs * real (length xs) = sum_list xs"
  by (simp add: mean_def)

lemma sum_list_sq_nonneg: "0 \<le> sum_list (map (\<lambda>x. (x - (m::real))\<^sup>2) xs)"
  by (induction xs) auto

lemma std_undefined: "length xs < 2 \<Longrightarrow> std xs = None"
  by (simp add: std_def)

lemma std_defined:
  assumes "2 \<le> length xs"
  shows "\<exists>s. std xs = Some s \<and> 0 \<le> s
           \<and> s\<^sup>2 * real (length xs - 1) = sum_list (map (\<lambda>x. (x - mean xs)\<^sup>2) xs)"
proof -
  let ?q = "sum_list (map (\<lambda>x. (x - mean xs)\<^sup>2) xs) / real (length xs - 1)"
  from assms have pos: "0 < real (length xs - 1)" by simp
  have nn: "0 \<le> ?q" using pos by (simp add: sum_list_sq_nonneg)
  from assms have "std xs = Some (sqrt ?q)" by (simp add: std_def)
  moreover have "0 \<le> sqrt ?q" using nn by simp
  moreover have "(sqrt ?q)\<^sup>2 * real (length xs - 1)
                   = sum_list (map (\<lambda>x. (x - mean xs)\<^sup>2) xs)"
    using nn pos by simp
  ultimately show ?thesis by blast
qed

lemma real_sum_list_length:
  "real (sum_list (map length xs)) = sum_list (map (\<lambda>t. real (length t)) xs)"
  by (induction xs) auto




section \<open>Reasoning about runs of the command\<close>

lemma bindM_eq:
  "bindM m f w = (r, w') \<longleftrightarrow>
     (\<exists>x w1. m w = (Return x, w1) \<and> f x w1 = (r, w'))
     \<or> (\<exists>e. m w = (Raise e, w') \<and> r = Raise e)
     \<or> (m w = (Diverge, w') \<and> r = Diverge)"
  by (auto simp: bindM_def split: prod.splits result.splits)

lemma ext_call_eq:
  "ext_call v w = (r, w') \<longleftrightarrow>
     w' = w \<and> ((\<exists>x. v = Inr x \<and> r = Return x) \<or> (\<exists>m. v = Inl m \<and> r = Raise (External m)))"
  by (auto simp: ext_call_def split: sum.splits)

lemma ext_effect_eq:
  "ext_effect v w = (r, w') \<longleftrightarrow>
     w' = w \<and> ((v = None \<and> r = Return ()) \<or> (\<exists>m. v = Some m \<and> r = Raise (External m)))"
  by (auto simp: ext_effect_def split: option.splits)

lemma lift_eq:
  "lift v w = (r, w') \<longleftrightarrow>
     w' = w \<and> ((\<exists>x. v = Inr x \<and> r = Return x) \<or> (\<exists>e. v = Inl e \<and> r = Raise e))"
  by (auto simp: lift_def split: sum.splits)

lemma lift_env_eq:
  "lift_env p w = (r, w') \<longleftrightarrow> (\<exists>ew. p (envw w) = (r, ew) \<and> w' = w\<lparr>envw := ew\<rparr>)"
  by (auto simp: lift_env_def split: prod.splits)

lemma log_call_eq: "log_call c w = (r, w') \<longleftrightarrow> r = Return () \<and> w' = w\<lparr>calls := calls w @ [c]\<rparr>"
  by (auto simp: log_call_def)

lemma with_ctx_enter_fails:
  "ctx_enter c = Inl m \<Longrightarrow> with_ctx res c body w = (Raise (External m), w)"
  by (simp add: with_ctx_def bindM_def ext_call_def)

lemma with_ctx_entered:
  "ctx_enter c = Inr r \<Longrightarrow>
     with_ctx res c body w =
       (case body r (w\<lparr>calls := calls w @ [Acquired res]\<rparr>) of
          (Return b, w1) \<Rightarrow>
            (case ctx_exit c None of
               Inl m \<Rightarrow> (Raise (External m), w1\<lparr>calls := calls w1 @ [Released res None]\<rparr>)
             | Inr s \<Rightarrow> (Return (Some b), w1\<lparr>calls := calls w1 @ [Released res None]\<rparr>))
        | (Raise e, w1) \<Rightarrow>
            (case ctx_exit c (Some e) of
               Inl m \<Rightarrow> (Raise (External m), w1\<lparr>calls := calls w1 @ [Released res (Some e)]\<rparr>)
             | Inr s \<Rightarrow> (if s then Return None else Raise e,
                          w1\<lparr>calls := calls w1 @ [Released res (Some e)]\<rparr>))
        | (Diverge, w1) \<Rightarrow> (Diverge, w1))"
  by (simp add: with_ctx_def bindM_def ext_call_def log_call_def ret_def raise_def
        split: prod.splits result.splits sum.splits)

lemma with_ctx_Return_Some:
  assumes "with_ctx res c body w = (Return (Some b), w')"
  shows "\<exists>r w2. ctx_enter c = Inr r
        \<and> body r (w\<lparr>calls := calls w @ [Acquired res]\<rparr>) = (Return b, w2)"
proof (cases "ctx_enter c")
  case (Inl m)
  with assms show ?thesis by (simp add: with_ctx_enter_fails)
next
  case (Inr r)
  with assms show ?thesis
    by (auto simp: with_ctx_entered split: prod.splits result.splits sum.splits if_splits)
qed

lemma with_exit_stack_Return_Some:
  "with_exit_stack body w = (Return (Some b), w') \<Longrightarrow>
     \<exists>w1. body (w\<lparr>exit_stack := []\<rparr>) = (Return b, w1)"
  by (auto simp: with_exit_stack_def bindM_Return set_stack_def ret_eq raise_def
        split: prod.splits result.splits option.splits)

text \<open>The inner with statement around a body that leaves calls and stack alone.\<close>

lemma with_ctx_trace:
  assumes run: "with_ctx res c (\<lambda>p. lift_env (g p)) w = (r, w')" and nd: "r \<noteq> Diverge"
  shows "exit_stack w' = exit_stack w
       \<and> (calls w' = calls w \<or> (\<exists>e. calls w' = calls w @ [Acquired res, Released res e]))
       \<and> (\<forall>e. r = Raise e \<longrightarrow> (\<exists>m. e = External m) \<or> (\<exists>p ew ew'. g p ew = (Raise e, ew')))"
proof (cases "ctx_enter c")
  case (Inl m)
  with run show ?thesis by (auto simp: with_ctx_enter_fails)
next
  case (Inr p)
  obtain rb w1 where body: "lift_env (g p) (w\<lparr>calls := calls w @ [Acquired res]\<rparr>) = (rb, w1)"
    by (cases "lift_env (g p) (w\<lparr>calls := calls w @ [Acquired res]\<rparr>)")
  then obtain ew where g: "g p (envw w) = (rb, ew)"
    and w1: "w1 = w\<lparr>calls := calls w @ [Acquired res], envw := ew\<rparr>"
    by (auto simp: lift_env_eq)
  show ?thesis
  proof (cases rb)
    case (Return b)
    with run Inr body w1 show ?thesis
      by (auto simp: with_ctx_entered split: sum.splits)
  next
    case (Raise e)
    with run Inr body w1 g show ?thesis
      by (auto simp: with_ctx_entered split: sum.splits if_splits)
  next
    case Diverge
    with run Inr body nd show ?thesis
      by (simp add: with_ctx_entered)
  qed
qed

lemma reward_part_trace:
  assumes "(case rt of
              None \<Rightarrow> ret v1
            | Some t \<Rightarrow>
                bindM (ext_call (lr t)) (\<lambda>ctx.
                bindM (enter_context RewardRes ctx) (\<lambda>rfn.
                bindM (log_call (LogInfo (msg t))) (\<lambda>_.
                ret (wr t rfn))))) w = (r, w')"
  shows "(calls w' = calls w \<and> exit_stack w' = exit_stack w
            \<and> (r = Return v1 \<or> (\<exists>m. r = Raise (External m))))
       \<or> (\<exists>v cb m. r = Return v \<and> calls w' = calls w @ [Acquired RewardRes, LogInfo m]
             \<and> exit_stack w' = (RewardRes, cb) # exit_stack w)"
  using assms
  by (cases rt)
     (auto simp: ret_eq bindM_eq ext_call_eq enter_context_def log_call_eq push_exit_def)

lemma policy_part_trace:
  assumes "bindM (ext_call lp) (\<lambda>pctx. with_ctx PolicyRes pctx (\<lambda>p. lift_env (g p))) w = (r, w')"
    and "r \<noteq> Diverge"
  shows "exit_stack w' = exit_stack w
       \<and> (calls w' = calls w \<or> (\<exists>e. calls w' = calls w @ [Acquired PolicyRes, Released PolicyRes e]))
       \<and> (\<forall>e. r = Raise e \<longrightarrow> (\<exists>m. e = External m) \<or> (\<exists>p ew ew'. g p ew = (Raise e, ew')))"
  using assms
  by (auto simp: bindM_eq ext_call_eq dest!: with_ctx_trace)


lemma stack_block_trace:
  assumes run: "with_exit_stack (
        bindM (case rt of
                 None \<Rightarrow> ret v1
               | Some t \<Rightarrow>
                   bindM (ext_call (lr t)) (\<lambda>ctx.
                   bindM (enter_context RewardRes ctx) (\<lambda>rfn.
                   bindM (log_call (LogInfo (msg t))) (\<lambda>_.
                   ret (wr t rfn))))) (\<lambda>venv.
        bindM (ext_call (lp venv)) (\<lambda>pctx.
        with_ctx PolicyRes pctx (\<lambda>p. lift_env (g p venv))))) w = (r, w')"
    and nd: "r \<noteq> Diverge"
  shows "(\<exists>es. calls w' = calls w @ es \<and> stack_shape es)
       \<and> (\<forall>e. r = Raise e \<longrightarrow>
             (\<exists>m. e = External m) \<or> (\<exists>p venv ew ew'. g p venv ew = (Raise e, ew')))"
proof -
  let ?R = "(case rt of
                 None \<Rightarrow> ret v1
               | Some t \<Rightarrow>
                   bindM (ext_call (lr t)) (\<lambda>ctx.
                   bindM (enter_context RewardRes ctx) (\<lambda>rfn.
                   bindM (log_call (LogInfo (msg t))) (\<lambda>_.
                   ret (wr t rfn)))))"
  let ?K = "\<lambda>venv. bindM (ext_call (lp venv)) (\<lambda>pctx.
        with_ctx PolicyRes pctx (\<lambda>p. lift_env (g p venv)))"
  let ?w0 = "w\<lparr>exit_stack := []\<rparr>"
  obtain rb w1 where body: "bindM ?R ?K ?w0 = (rb, w1)"
    by (cases "bindM ?R ?K ?w0")
  have unfold: "with_exit_stack (bindM ?R ?K) w =
      (case (rb, w1) of
        (Return b, w1) \<Rightarrow>
          bindM (unwind (exit_stack w1) None) (\<lambda>exc.
          case exc of None \<Rightarrow> ret (Some b) | Some e \<Rightarrow> raise e) (w1\<lparr>exit_stack := []\<rparr>)
      | (Raise e, w1) \<Rightarrow>
          bindM (unwind (exit_stack w1) (Some e)) (\<lambda>exc.
          case exc of None \<Rightarrow> ret None | Some e' \<Rightarrow> raise e') (w1\<lparr>exit_stack := []\<rparr>)
      | (Diverge, w1) \<Rightarrow> (Diverge, w1))"
    using body by (simp add: with_exit_stack_def bindM_def set_stack_def)
  from run nd unfold have rbnd: "rb \<noteq> Diverge" by (cases rb) auto
  obtain rr wr' where R: "?R ?w0 = (rr, wr')" by (cases "?R ?w0")
  note Rt = reward_part_trace[OF R]
  have shape: "(calls w1 = calls w @ [] \<and> exit_stack w1 = [])
      \<or> (\<exists>e. calls w1 = calls w @ [Acquired PolicyRes, Released PolicyRes e] \<and> exit_stack w1 = [])
      \<or> (\<exists>m cb. calls w1 = calls w @ [Acquired RewardRes, LogInfo m] \<and> exit_stack w1 = [(RewardRes, cb)])
      \<or> (\<exists>m e cb. calls w1 = calls w @ [Acquired RewardRes, LogInfo m, Acquired PolicyRes, Released PolicyRes e]
             \<and> exit_stack w1 = [(RewardRes, cb)])"
    and prov: "\<forall>e. rb = Raise e \<longrightarrow>
             (\<exists>m. e = External m) \<or> (\<exists>p venv ew ew'. g p venv ew = (Raise e, ew'))"
    using body R Rt rbnd
    by (auto simp: bindM_eq[of ?R] dest!: policy_part_trace)
  show ?thesis
  proof (cases rb)
    case (Return b)
    with run unfold shape show ?thesis
      by (auto simp: stack_shape_def bindM_def log_call_def ret_def raise_def
            split: sum.splits option.splits if_splits)
  next
    case (Raise e)
    with run unfold shape prov show ?thesis
      by (auto simp: stack_shape_def bindM_def log_call_def ret_def raise_def
            split: sum.splits option.splits if_splits)
  next
    case Diverge
    with rbnd show ?thesis by simp
  qed
qed


lemma collect_trajs_trace:
  assumes "collect_trajs x c venv1 su w = (r, w')" and "r \<noteq> Diverge"
  shows "(\<exists>es. calls w' = calls w @ es \<and> stack_shape es)
       \<and> (\<forall>e. r = Raise e \<longrightarrow>
             (\<exists>m. e = External m)
           \<or> (\<exists>p venv ew ew'. x_generate_trajectories x p venv su ew = (Raise e, ew')))"
  using stack_block_trace[OF assms(1)[unfolded collect_trajs_def] assms(2)] by blast

lemma collect_trajs_Return:
  assumes "collect_trajs x c venv1 su w = (Return (Some (Some trajs)), w')"
  shows "\<exists>venv policy_ctx policy ew'.
           wrapped_venv x c venv1 venv
         \<and> x_load_policy x (policy_type c) (policy_path c) venv = Inr policy_ctx
         \<and> ctx_enter policy_ctx = Inr policy
         \<and> x_generate_trajectories x policy venv su (envw w) = (Return trajs, ew')"
proof (cases "reward_type c")
  case None
  with assms show ?thesis
    unfolding collect_trajs_def
    apply -
    apply (drule with_exit_stack_Return_Some)
    apply (clarsimp simp: bindM_Return ext_call_eq ret_eq)
    apply (drule with_ctx_Return_Some)
    apply (auto simp: lift_env_eq wrapped_venv_def)
    done
next
  case (Some rt)
  with assms show ?thesis
    unfolding collect_trajs_def
    apply -
    apply (drule with_exit_stack_Return_Some)
    apply (clarsimp simp: bindM_Return ext_call_eq ret_eq log_call_eq)
    apply (drule with_ctx_Return_Some)
    apply (auto simp: lift_env_eq wrapped_venv_def enter_context_def bindM_Return
             ext_call_eq log_call_eq push_exit_def ret_eq)
    done
qed

lemmas run_simps =
  eval_policy_def bindM_def log_call_def ext_effect_def lift_def ext_call_def lift_env_def
  set_sim_def prelude_def rendered_venv_def Let_def

lemma eval_policy_makedirs_fails:
  "x_makedirs x (log_dir c) = Some m \<Longrightarrow>
     eval_policy x c w = (Raise (External m), w\<lparr>calls := calls w @ [MakeDirs (log_dir c)]\<rparr>)"
  by (simp add: run_simps)

lemma eval_policy_symlink_fails:
  "x_makedirs x (log_dir c) = None \<Longrightarrow> x_build_sacred_symlink x (log_dir c) = Some m \<Longrightarrow>
     eval_policy x c w =
       (Raise (External m),
        w\<lparr>calls := calls w @ [MakeDirs (log_dir c), BuildSacredSymlink (log_dir c)]\<rparr>)"
  by (simp add: run_simps)

lemma eval_policy_sample_until_fails:
  "x_makedirs x (log_dir c) = None \<Longrightarrow> x_build_sacred_symlink x (log_dir c) = None \<Longrightarrow>
   x_make_sample_until x (eval_n_timesteps c) (eval_n_episodes c) = Inl e \<Longrightarrow>
     eval_policy x c w = (Raise e, w\<lparr>calls := calls w @ prelude c\<rparr>)"
  by (simp add: run_simps)

lemma eval_policy_make_vec_env_fails:
  "x_makedirs x (log_dir c) = None \<Longrightarrow> x_build_sacred_symlink x (log_dir c) = None \<Longrightarrow>
   x_make_sample_until x (eval_n_timesteps c) (eval_n_episodes c) = Inr su \<Longrightarrow>
   x_make_vec_env x (env_name c) (num_vec c) (seed c) (parallel c) (log_dir c)
      (max_episode_steps c) = Inl m \<Longrightarrow>
     eval_policy x c w = (Raise (External m), w\<lparr>calls := calls w @ prelude c @ [MakeVecEnv]\<rparr>)"
  by (simp add: run_simps)

lemma eval_policy_reaches_block:
  "x_makedirs x (log_dir c) = None \<Longrightarrow> x_build_sacred_symlink x (log_dir c) = None \<Longrightarrow>
   x_make_sample_until x (eval_n_timesteps c) (eval_n_episodes c) = Inr su \<Longrightarrow>
   x_make_vec_env x (env_name c) (num_vec c) (seed c) (parallel c) (log_dir c)
      (max_episode_steps c) = Inr (b, s0) \<Longrightarrow>
     eval_policy x c w =
       (case collect_trajs x c (rendered_venv c b) su
               (w\<lparr>calls := calls w @ prelude c @ [MakeVecEnv], envw := (envw w)\<lparr>sim := s0\<rparr>\<rparr>) of
          (Return (Some (Some trajs)), w1) \<Rightarrow>
            (case x_rollout_stats x trajs of
               Inl e \<Rightarrow> (Raise e, w1)
             | Inr st \<Rightarrow> (Return st, w1))
        | (Return _, w1) \<Rightarrow> (Raise UnboundLocalError, w1)
        | (Raise e, w1) \<Rightarrow> (Raise e, w1)
        | (Diverge, w1) \<Rightarrow> (Diverge, w1))"
  by (simp add: run_simps raise_def split: prod.splits result.splits option.splits sum.splits)


lemmas demo_run_simps =
  demo_ext_def crash_ext_def crash_env_def demo_config_def demo_state_def demo_policy_ctx_def
  demo_reward_ctx_def demo_env_def
  run_simps collect_trajs_def with_exit_stack_def with_ctx_def enter_context_def push_exit_def
  set_stack_def ret_def raise_def make_sample_until_def min_episodes_def min_timesteps_def
  generate_trajectories_def start_slot_def finished_def stop_now_def total_timesteps_def
  diverge_def venv_step_def base_reset_def base_step_wait_def base_render_def
  remember_obs_def recall_obs_def override_rewards_def record_step_def settle_def py_str_def
  rollout_stats_def mean_def std_def episode_return_def py_truediv_def time_sleep_def

lemma demo_run:
  "eval_policy (demo_ext (Suc (Suc (Suc 0)))) demo_config demo_state =
     (Return \<lparr>n_traj = 2, return_mean = 10, return_std = Some 0, len_mean = 2, len_std = Some 0\<rparr>,
      \<lparr>calls =
         [MakeDirs ''out'', BuildSacredSymlink ''out'', SetVerbosity,
          LogInfo ''Logging to out'', MakeVecEnv, Acquired RewardRes,
          LogInfo ''Wrapped env in reward const from None.'',
          Acquired PolicyRes, Released PolicyRes None, Released RewardRes None],
       exit_stack = [],
       envw = \<lparr>effects = [Render, Render, Render], sim = [0, 0], last_obs = [0, 0]\<rparr>\<rparr>)"
  by (simp add: demo_run_simps)

lemma crash_run:
  "eval_policy (crash_ext (Suc (Suc (Suc 0)))) demo_config demo_state =
     (Raise (External ''crash''),
      \<lparr>calls =
         [MakeDirs ''out'', BuildSacredSymlink ''out'', SetVerbosity,
          LogInfo ''Logging to out'', MakeVecEnv, Acquired RewardRes,
          LogInfo ''Wrapped env in reward const from None.'',
          Acquired PolicyRes, Released PolicyRes (Some (External ''crash'')),
          Released RewardRes (Some (External ''crash''))],
       exit_stack = [],
       envw = \<lparr>effects = [Render], sim = [0, 0], last_obs = [0, 0]\<rparr>\<rparr>)"
  by (simp add: demo_run_simps)

lemma eval_policy_cases:
  obtains
    (makedirs) m where "x_makedirs x (log_dir c) = Some m"
  | (symlink) m where "x_makedirs x (log_dir c) = None"
      "x_build_sacred_symlink x (log_dir c) = Some m"
  | (sample_until) e where "x_makedirs x (log_dir c) = None"
      "x_build_sacred_symlink x (log_dir c) = None"
      "x_make_sample_until x (eval_n_timesteps c) (eval_n_episodes c) = Inl e"
  | (make_vec_env) su m where "x_makedirs x (log_dir c) = None"
      "x_build_sacred_symlink x (log_dir c) = None"
      "x_make_sample_until x (eval_n_timesteps c) (eval_n_episodes c) = Inr su"
      "x_make_vec_env x (env_name c) (num_vec c) (seed c) (parallel c) (log_dir c)
         (max_episode_steps c) = Inl m"
  | (block) su b s0 where "x_makedirs x (log_dir c) = None"
      "x_build_sacred_symlink x (log_dir c) = None"
      "x_make_sample_until x (eval_n_timesteps c) (eval_n_episodes c) = Inr su"
      "x_make_vec_env x (env_name c) (num_vec c) (seed c) (parallel c) (log_dir c)
         (max_episode_steps c) = Inr (b, s0)"
proof (cases "x_makedirs x (log_dir c)")
  case (Some m)
  then show ?thesis by (rule makedirs)
next
  case None
  note md = this
  show ?thesis
  proof (cases "x_build_sacred_symlink x (log_dir c)")
    case (Some m)
    with md show ?thesis by (rule symlink)
  next
    case None
    note sl = this
    show ?thesis
    proof (cases "x_make_sample_until x (eval_n_timesteps c) (eval_n_episodes c)")
      case (Inl e)
      with md sl show ?thesis by (rule sample_until)
    next
      case (Inr su)
      note su = this
      show ?thesis
      proof (cases "x_make_vec_env x (env_name c) (num_vec c) (seed c) (parallel c) (log_dir c)
         (max_episode_steps c)")
        case (Inl m)
        with md sl su show ?thesis by (rule make_vec_env)
      next
        case (Inr p)
        with md sl su show ?thesis by (cases p) (auto intro: block)
      qed
    qed
  qed
qed

lemma all_released_stack_shape: "stack_shape es \<Longrightarrow> all_released es"
  by (auto simp: stack_shape_def)

lemma all_released_prelude: "all_released (prelude c @ MakeVecEnv # es) = all_released es"
  by (simp add: prelude_def)

lemma eval_policy_trace:
  assumes run: "eval_policy x c w = (r, w')" and nd: "r \<noteq> Diverge"
  shows "\<exists>es. calls w' = calls w @ es \<and> all_released es
           \<and> (MakeVecEnv \<in> set es \<longleftrightarrow>
                 x_makedirs x (log_dir c) = None \<and> x_build_sacred_symlink x (log_dir c) = None
               \<and> (\<exists>su. x_make_sample_until x (eval_n_timesteps c) (eval_n_episodes c) = Inr su))"
proof (cases x c rule: eval_policy_cases)
  case (makedirs m)
  with run show ?thesis by (auto simp: eval_policy_makedirs_fails)
next
  case (symlink m)
  with run show ?thesis by (auto simp: eval_policy_symlink_fails)
next
  case (sample_until e)
  with run show ?thesis by (auto simp: eval_policy_sample_until_fails prelude_def)
next
  case (make_vec_env su m)
  with run show ?thesis by (auto simp: eval_policy_make_vec_env_fails prelude_def)
next
  case (block su b s0)
  let ?w1 = "w\<lparr>calls := calls w @ prelude c @ [MakeVecEnv], envw := (envw w)\<lparr>sim := s0\<rparr>\<rparr>"
  obtain rb w2 where col: "collect_trajs x c (rendered_venv c b) su ?w1 = (rb, w2)"
    by (cases "collect_trajs x c (rendered_venv c b) su ?w1")
  from run have r: "(r, w') =
       (case (rb, w2) of
          (Return (Some (Some trajs)), w1) \<Rightarrow>
            (case x_rollout_stats x trajs of
               Inl e \<Rightarrow> (Raise e, w1)
             | Inr st \<Rightarrow> (Return st, w1))
        | (Return _, w1) \<Rightarrow> (Raise UnboundLocalError, w1)
        | (Raise e, w1) \<Rightarrow> (Raise e, w1)
        | (Diverge, w1) \<Rightarrow> (Diverge, w1))"
    unfolding eval_policy_reaches_block[OF block] col by simp
  with nd have rbnd: "rb \<noteq> Diverge" by (cases rb) auto
  from r have w': "w' = w2"
    by (auto split: result.splits option.splits sum.splits)
  from collect_trajs_trace[OF col rbnd] obtain es where
    es: "calls w2 = calls ?w1 @ es" "stack_shape es" by blast
  have "calls w' = calls w @ (prelude c @ MakeVecEnv # es)"
    using es w' by simp
  moreover have "all_released (prelude c @ MakeVecEnv # es)"
    using es(2) by (simp add: all_released_prelude all_released_stack_shape)
  moreover have "MakeVecEnv \<in> set (prelude c @ MakeVecEnv # es)" by simp
  ultimately show ?thesis using block by blast
qed

lemma eval_policy_Return:
  assumes run: "eval_policy x c w = (Return st, w')"
  shows "\<exists>su b s0 venv policy_ctx policy trajs ew'.
           x_makedirs x (log_dir c) = None \<and> x_build_sacred_symlink x (log_dir c) = None
         \<and> x_make_sample_until x (eval_n_timesteps c) (eval_n_episodes c) = Inr su
         \<and> x_make_vec_env x (env_name c) (num_vec c) (seed c) (parallel c) (log_dir c)
               (max_episode_steps c) = Inr (b, s0)
         \<and> wrapped_venv x c (rendered_venv c b) venv
         \<and> x_load_policy x (policy_type c) (policy_path c) venv = Inr policy_ctx
         \<and> ctx_enter policy_ctx = Inr policy
         \<and> x_generate_trajectories x policy venv su ((envw w)\<lparr>sim := s0\<rparr>) = (Return trajs, ew')
         \<and> x_rollout_stats x trajs = Inr st"
proof (cases x c rule: eval_policy_cases)
  case (makedirs m)
  with run show ?thesis by (simp add: eval_policy_makedirs_fails)
next
  case (symlink m)
  with run show ?thesis by (simp add: eval_policy_symlink_fails)
next
  case (sample_until e)
  with run show ?thesis by (simp add: eval_policy_sample_until_fails)
next
  case (make_vec_env su m)
  with run show ?thesis by (simp add: eval_policy_make_vec_env_fails)
next
  case (block su b s0)
  let ?w1 = "w\<lparr>calls := calls w @ prelude c @ [MakeVecEnv], envw := (envw w)\<lparr>sim := s0\<rparr>\<rparr>"
  obtain rb w2 where col: "collect_trajs x c (rendered_venv c b) su ?w1 = (rb, w2)"
    by (cases "collect_trajs x c (rendered_venv c b) su ?w1")
  from run obtain trajs where rb: "rb = Return (Some (Some trajs))"
    and st: "x_rollout_stats x trajs = Inr st"
    unfolding eval_policy_reaches_block[OF block] col
    by (auto split: result.splits option.splits sum.splits)
  from collect_trajs_Return[OF col[unfolded rb]] block st show ?thesis
    by (auto simp del: ext.ext_inject)
qed


section \<open>Validation, release and result of a run\<close>

lemma rollout_loop_finished:
  "finished su slots trajs \<Longrightarrow> rollout_loop n policy venv su slots trajs w = (Return trajs, w)"
  by (cases n) (simp_all add: ret_def)

lemma rollout_loop_step_cases:
  assumes run: "rollout_loop (Suc n) policy venv su slots trajs w = (r, w')"
    and nf: "\<not> finished su slots trajs"
  obtains
    (stepped) res w1 slots' trajs' where
      "venv_step venv (map (\<lambda>sl. policy (cur sl)) slots) w = (Return res, w1)"
      "record_steps (zip slots (zip (map (\<lambda>sl. policy (cur sl)) slots) res)) trajs
         = (slots', trajs')"
      "rollout_loop n policy venv su (map (settle su trajs') slots') trajs' w1 = (r, w')"
  | (raised) e where
      "venv_step venv (map (\<lambda>sl. policy (cur sl)) slots) w = (Raise e, w')" "r = Raise e"
  | (diverged)
      "venv_step venv (map (\<lambda>sl. policy (cur sl)) slots) w = (Diverge, w')" "r = Diverge"
proof -
  let ?acts = "map (\<lambda>sl. policy (cur sl)) slots"
  obtain rs w1 where step: "venv_step venv ?acts w = (rs, w1)"
    by (cases "venv_step venv ?acts w")
  show thesis
  proof (cases rs)
    case (Return res)
    obtain slots' trajs' where rec:
      "record_steps (zip slots (zip ?acts res)) trajs = (slots', trajs')"
      by (cases "record_steps (zip slots (zip ?acts res)) trajs")
    from run nf step Return rec
    have "rollout_loop n policy venv su (map (settle su trajs') slots') trajs' w1 = (r, w')"
      by (simp add: Let_def bindM_def)
    with step Return rec show thesis by (auto intro: stepped)
  next
    case (Raise e)
    with run nf step show thesis by (auto simp: Let_def bindM_def intro: raised)
  next
    case Diverge
    with run nf step show thesis by (auto simp: Let_def bindM_def intro: diverged)
  qed
qed

lemma rollout_loop_raises_External:
  "rollout_loop n policy venv su slots trajs w = (Raise e, w') \<Longrightarrow> \<exists>m. e = External m"
proof (induction n arbitrary: slots trajs w)
  case 0
  then show ?case by (auto simp: ret_def diverge_def split: if_splits)
next
  case (Suc n)
  show ?case
  proof (cases "finished su slots trajs")
    case True
    with Suc.prems show ?thesis by (simp add: ret_def)
  next
    case False
    from Suc.prems False show ?thesis
    proof (cases rule: rollout_loop_step_cases)
      case (stepped res w1 slots' trajs')
      then show ?thesis using Suc.IH by blast
    next
      case (raised e')
      then show ?thesis
        by (auto simp: venv_step_def dest: venv_step_wait_raises_External)
    next
      case diverged
      then show ?thesis by simp
    qed
  qed
qed

lemma generate_trajectories_raises_External:
  "generate_trajectories fuel policy venv su w = (Raise e, w') \<Longrightarrow> \<exists>m. e = External m"
  by (auto simp: generate_trajectories_def bindM_Raise
        dest: venv_reset_raises_External rollout_loop_raises_External)

lemma rollout_stats_raises: "rollout_stats trajs = Inl e \<Longrightarrow> e = EmptyTrajectoriesError"
  by (auto simp: rollout_stats_def Let_def split: if_splits)

lemma make_sample_until_cases:
  "make_sample_until t k =
     (if (t = None) = (k = None) then Inl ConfigurationError
      else if k = None then Inr (min_timesteps (the t)) else Inr (min_episodes (the k)))"
  by (auto simp: make_sample_until_def split: option.splits)

lemma eval_policy_Raise:
  assumes run: "eval_policy x c w = (Raise e, w')"
  shows "(\<exists>m. e = External m) \<or> e = UnboundLocalError
       \<or> x_make_sample_until x (eval_n_timesteps c) (eval_n_episodes c) = Inl e
       \<or> (\<exists>trajs. x_rollout_stats x trajs = Inl e)
       \<or> (\<exists>p venv su ew ew'. x_generate_trajectories x p venv su ew = (Raise e, ew'))"
proof (cases x c rule: eval_policy_cases)
  case (makedirs m)
  with run show ?thesis by (auto simp: eval_policy_makedirs_fails)
next
  case (symlink m)
  with run show ?thesis by (auto simp: eval_policy_symlink_fails)
next
  case (sample_until e')
  with run show ?thesis by (auto simp: eval_policy_sample_until_fails)
next
  case (make_vec_env su m)
  with run show ?thesis by (auto simp: eval_policy_make_vec_env_fails)
next
  case (block su b s0)
  let ?w1 = "w\<lparr>calls := calls w @ prelude c @ [MakeVecEnv], envw := (envw w)\<lparr>sim := s0\<rparr>\<rparr>"
  obtain rb w2 where col: "collect_trajs x c (rendered_venv c b) su ?w1 = (rb, w2)"
    by (cases "collect_trajs x c (rendered_venv c b) su ?w1")
  from run have r: "(Raise e, w') =
       (case (rb, w2) of
          (Return (Some (Some trajs)), w1) \<Rightarrow>
            (case x_rollout_stats x trajs of
               Inl e \<Rightarrow> (Raise e, w1)
             | Inr st \<Rightarrow> (Return st, w1))
        | (Return _, w1) \<Rightarrow> (Raise UnboundLocalError, w1)
        | (Raise e, w1) \<Rightarrow> (Raise e, w1)
        | (Diverge, w1) \<Rightarrow> (Diverge, w1))"
    unfolding eval_policy_reaches_block[OF block] col by simp
  then have rbnd: "rb \<noteq> Diverge" by (cases rb) auto
  from collect_trajs_trace[OF col rbnd] r show ?thesis
    by (cases rb) (auto split: option.splits sum.splits)
qed




text \<open>
  Claim C8. A run of \<open>eval_policy\<close> that returns a value returns the statistics that the
  statistics aggregator computes over the trajectories that the rollout engine returned in
  that run: the engine was called with the policy loaded from the configured type and
  path, on the environment built in the run, with the configured stopping condition.
\<close>

theorem eval_policy_returns_stats_of_rollout:
  assumes "eval_policy x c w = (Return st, w')"
  shows "\<exists>su b s0 venv policy_ctx policy trajs ew'.
           x_make_sample_until x (eval_n_timesteps c) (eval_n_episodes c) = Inr su
         \<and> x_make_vec_env x (env_name c) (num_vec c) (seed c) (parallel c) (log_dir c)
               (max_episode_steps c) = Inr (b, s0)
         \<and> wrapped_venv x c (rendered_venv c b) venv
         \<and> x_load_policy x (policy_type c) (policy_path c) venv = Inr policy_ctx
         \<and> ctx_enter policy_ctx = Inr policy
         \<and> x_generate_trajectories x policy venv su ((envw w)\<lparr>sim := s0\<rparr>) = (Return trajs, ew')
         \<and> x_rollout_stats x trajs = Inr st"
  using eval_policy_Return[OF assms] by blast

theorem eval_policy_returns_stats_of_rollout_witness:
  "eval_policy (demo_ext (Suc (Suc (Suc 0)))) demo_config demo_state =
     (Return \<lparr>n_traj = 2, return_mean = 10, return_std = Some 0, len_mean = 2, len_std = Some 0\<rparr>,
      \<lparr>calls =
         [MakeDirs ''out'', BuildSacredSymlink ''out'', SetVerbosity,
          LogInfo ''Logging to out'', MakeVecEnv, Acquired RewardRes,
          LogInfo ''Wrapped env in reward const from None.'',
          Acquired PolicyRes, Released PolicyRes None, Released RewardRes None],
       exit_stack = [],
       envw = \<lparr>effects = [Render, Render, Render], sim = [0, 0], last_obs = [0, 0]\<rparr>\<rparr>)
   \<and> (\<exists>trajs ew'.
         generate_trajectories (Suc (Suc (Suc 0))) (\<lambda>ob. 0)
            (RewardVecEnvWrapper (InteractiveRender (BaseVenv demo_env) 0) (\<lambda>s a s'. 5))
            (min_episodes 2) \<lparr>effects = [], sim = [0, 0], last_obs = []\<rparr> = (Return trajs, ew')
       \<and> rollout_stats trajs
           = Inr \<lparr>n_traj = 2, return_mean = 10, return_std = Some 0, len_mean = 2, len_std = Some 0\<rparr>)"
  using eval_policy_returns_stats_of_rollout [OF demo_run] demo_run
  by (auto simp: demo_ext_def demo_config_def demo_state_def wrapped_venv_def rendered_venv_def
        make_sample_until_def demo_policy_ctx_def demo_reward_ctx_def)




section \<open>The rollout engine: stopping condition and well-formed trajectories\<close>

lemma rollout_loop_Return_stop:
  "rollout_loop n policy venv su slots trajs w = (Return T, w') \<Longrightarrow> stop_now su T"
proof (induction n arbitrary: slots trajs w)
  case 0
  then show ?case by (auto simp: ret_def diverge_def finished_def split: if_splits)
next
  case (Suc n)
  show ?case
  proof (cases "finished su slots trajs")
    case True
    with Suc.prems show ?thesis by (auto simp: ret_def finished_def)
  next
    case False
    from Suc.prems False show ?thesis
    proof (cases rule: rollout_loop_step_cases)
      case (stepped res w1 slots' trajs')
      then show ?thesis using Suc.IH by blast
    qed simp_all
  qed
qed

lemma generate_trajectories_Return_stop:
  "generate_trajectories fuel policy venv su w = (Return T, w') \<Longrightarrow> stop_now su T"
  by (auto simp: generate_trajectories_def bindM_Return dest: rollout_loop_Return_stop)

lemma chained_snoc:
  "chained p \<Longrightarrow> (p \<noteq> [] \<longrightarrow> st_next_obs (last p) = st_obs s) \<Longrightarrow> chained (p @ [s])"
  by (induction p rule: chained.induct) auto

lemma record_step_ok:
  assumes "slot_ok sl" and "record_step sl a ob r d trajs = (sl', trajs')"
  shows "slot_ok sl' \<and> (trajs' = trajs \<or> (\<exists>t. trajs' = trajs @ [t] \<and> well_formed t))"
proof (cases "live sl")
  case False
  with assms show ?thesis by (auto simp: record_step_def slot_ok_def)
next
  case True
  note live = this
  show ?thesis
  proof (cases "partial sl = []")
    case True
    with assms live show ?thesis
      by (auto simp: record_step_def slot_ok_def well_formed_def Let_def split: if_splits)
  next
    case False
    with assms live show ?thesis
      by (auto simp: record_step_def slot_ok_def well_formed_def Let_def chained_snoc
               butlast_append
            split: if_splits)
  qed
qed

lemma record_steps_ok:
  assumes "\<forall>z \<in> set zs. slot_ok (fst z)" and "\<forall>t \<in> set trajs. well_formed t"
    and "record_steps zs trajs = (slots', trajs')"
  shows "(\<forall>sl \<in> set slots'. slot_ok sl) \<and> (\<forall>t \<in> set trajs'. well_formed t)"
  using assms
proof (induction zs trajs arbitrary: slots' trajs' rule: record_steps.induct)
  case (1 trajs)
  then show ?case by simp
next
  case (2 sl a ob r d rest trajs)
  obtain sl1 trajs1 where one: "record_step sl a ob r d trajs = (sl1, trajs1)"
    by (cases "record_step sl a ob r d trajs")
  obtain sls2 trajs2 where more: "record_steps rest trajs1 = (sls2, trajs2)"
    by (cases "record_steps rest trajs1")
  from "2.prems"(3) one more have res: "slots' = sl1 # sls2" "trajs' = trajs2" by auto
  from "2.prems"(1) have "slot_ok sl" by simp
  from record_step_ok[OF this one] "2.prems"(2)
  have ok1: "slot_ok sl1" and wf1: "\<forall>t \<in> set trajs1. well_formed t" by auto
  from "2.IH"[OF one[symmetric] _ wf1 more] "2.prems"(1)
  have "(\<forall>sl \<in> set sls2. slot_ok sl) \<and> (\<forall>t \<in> set trajs2. well_formed t)" by simp
  with ok1 res show ?case by simp
qed

lemma settle_ok: "slot_ok sl \<Longrightarrow> slot_ok (settle su trajs sl)"
  by (auto simp: settle_def slot_ok_def)

lemma rollout_loop_well_formed:
  "rollout_loop n policy venv su slots trajs w = (Return T, w') \<Longrightarrow>
   \<forall>sl \<in> set slots. slot_ok sl \<Longrightarrow> \<forall>t \<in> set trajs. well_formed t \<Longrightarrow>
   \<forall>t \<in> set T. well_formed t"
proof (induction n arbitrary: slots trajs w)
  case 0
  then show ?case by (auto simp: ret_def diverge_def split: if_splits)
next
  case (Suc n)
  show ?case
  proof (cases "finished su slots trajs")
    case True
    with Suc.prems show ?thesis by (auto simp: ret_def)
  next
    case False
    from Suc.prems(1) False show ?thesis
    proof (cases rule: rollout_loop_step_cases)
      case (stepped res w1 slots' trajs')
      have "\<forall>z \<in> set (zip slots (zip (map (\<lambda>sl. policy (cur sl)) slots) res)). slot_ok (fst z)"
        using Suc.prems(2) by (auto dest: set_zip_leftD)
      from record_steps_ok[OF this Suc.prems(3) stepped(2)]
      have "\<forall>sl \<in> set (map (settle su trajs') slots'). slot_ok sl"
        and "\<forall>t \<in> set trajs'. well_formed t"
        by (auto simp: settle_ok)
      with Suc.IH[OF stepped(3)] show ?thesis by blast
    qed simp_all
  qed
qed

text \<open>
  Claim C4. Every trajectory that the rollout engine returns is well-formed: it is not
  empty, its first step starts at a reset of its instance and no later step does, its last
  step carries the done signal and no earlier step does, and its steps follow each other.
  No returned trajectory is cut short, whatever the stopping condition.
\<close>

theorem returned_trajectories_well_formed:
  assumes "generate_trajectories fuel policy venv su w = (Return trajs, w')"
  shows "\<forall>t \<in> set trajs. well_formed t"
proof -
  from assms obtain obs w1 where
    "rollout_loop fuel policy venv su (map (start_slot su) obs) [] w1 = (Return trajs, w')"
    by (auto simp: generate_trajectories_def bindM_Return)
  moreover have "\<forall>sl \<in> set (map (start_slot su) obs). slot_ok sl"
    by (simp add: start_slot_def slot_ok_def)
  ultimately show ?thesis
    using rollout_loop_well_formed by fastforce
qed


lemmas rollout_simps =
  generate_trajectories_def start_slot_def finished_def stop_now_def total_timesteps_def
  diverge_def venv_step_def base_reset_def base_step_wait_def base_render_def
  remember_obs_def recall_obs_def override_rewards_def record_step_def settle_def
  min_episodes_def min_timesteps_def bindM_def ret_def Let_def

lemma staggered_run:
  "generate_trajectories (Suc (Suc (Suc 0))) (\<lambda>ob. 0) (BaseVenv staggered_env) (min_episodes 2)
     staggered_world =
   (Return
      [[\<lparr>st_obs = 0, st_act = 0, st_rew = 1, st_done = True,
          st_next_obs = 0, st_at_reset = True\<rparr>],
       [\<lparr>st_obs = 0, st_act = 0, st_rew = 1, st_done = True,
          st_next_obs = 0, st_at_reset = True\<rparr>],
       [\<lparr>st_obs = 0, st_act = 0, st_rew = 1, st_done = False,
          st_next_obs = Suc 0, st_at_reset = True\<rparr>,
        \<lparr>st_obs = Suc 0, st_act = 0, st_rew = 1, st_done = False,
          st_next_obs = Suc (Suc 0), st_at_reset = False\<rparr>,
        \<lparr>st_obs = Suc (Suc 0), st_act = 0, st_rew = 1, st_done = True,
          st_next_obs = 0, st_at_reset = False\<rparr>]],
    \<lparr>effects = [], sim = [(0, Suc 0), (0, 3)], last_obs = []\<rparr>)"
  by (simp add: rollout_simps staggered_env_def staggered_world_def)

theorem returned_trajectories_well_formed_witness:
  "generate_trajectories (Suc (Suc (Suc 0))) (\<lambda>ob. 0) (BaseVenv staggered_env) (min_episodes 2)
     staggered_world =
   (Return
      [[\<lparr>st_obs = 0, st_act = 0, st_rew = 1, st_done = True,
          st_next_obs = 0, st_at_reset = True\<rparr>],
       [\<lparr>st_obs = 0, st_act = 0, st_rew = 1, st_done = True,
          st_next_obs = 0, st_at_reset = True\<rparr>],
       [\<lparr>st_obs = 0, st_act = 0, st_rew = 1, st_done = False,
          st_next_obs = Suc 0, st_at_reset = True\<rparr>,
        \<lparr>st_obs = Suc 0, st_act = 0, st_rew = 1, st_done = False,
          st_next_obs = Suc (Suc 0), st_at_reset = False\<rparr>,
        \<lparr>st_obs = Suc (Suc 0), st_act = 0, st_rew = 1, st_done = True,
          st_next_obs = 0, st_at_reset = False\<rparr>]],
    \<lparr>effects = [], sim = [(0, Suc 0), (0, 3)], last_obs = []\<rparr>)
   \<and> well_formed
       [\<lparr>st_obs = 0, st_act = 0, st_rew = 1, st_done = False,
          st_next_obs = Suc 0, st_at_reset = True\<rparr>,
        \<lparr>st_obs = Suc 0, st_act = 0, st_rew = 1, st_done = False,
          st_next_obs = Suc (Suc 0), st_at_reset = False\<rparr>,
        \<lparr>st_obs = Suc (Suc 0), st_act = (0::nat), st_rew = 1, st_done = True,
          st_next_obs = (0::nat), st_at_reset = False\<rparr>]"
  using returned_trajectories_well_formed [OF staggered_run] staggered_run
  by simp

text \<open>
  Claim C5. With the stopping conditions and the rollout engine of the spec, the budget
  is a lower bound: in a run of \<open>eval_policy\<close> that returns, the trajectories that the
  engine returned (the ones the statistics are computed over) number at least
  \<open>eval_n_episodes\<close> when that is the configured condition, and their lengths sum to at
  least \<open>eval_n_timesteps\<close> when that is the configured condition.
\<close>

theorem stopping_condition_is_lower_bound:
  fixes x :: "('s, 'o, 'a) ext"
  assumes msu: "x_make_sample_until x = make_sample_until"
    and gen: "x_generate_trajectories x = generate_trajectories fuel"
    and run: "eval_policy x c w = (Return st, w')"
  shows "\<exists>policy (venv :: ('s, 'o, 'a) venv) su ew trajs ew'.
           generate_trajectories fuel policy venv su ew = (Return trajs, ew')
         \<and> x_rollout_stats x trajs = Inr st
         \<and> (\<forall>K. eval_n_episodes c = Some K \<longrightarrow> K \<le> int (length trajs))
         \<and> (\<forall>T. eval_n_timesteps c = Some T \<longrightarrow> T \<le> int (total_timesteps trajs))"
proof -
  from eval_policy_Return[OF run] obtain su s0 policy venv trajs ew' where
    "x_make_sample_until x (eval_n_timesteps c) (eval_n_episodes c) = Inr su"
    and "x_generate_trajectories x policy venv su ((envw w)\<lparr>sim := s0\<rparr>) = (Return trajs, ew')"
    and st: "x_rollout_stats x trajs = Inr st"
    by auto
  then have su: "make_sample_until (eval_n_timesteps c) (eval_n_episodes c) = Inr su"
    and g: "generate_trajectories fuel policy venv su ((envw w)\<lparr>sim := s0\<rparr>) = (Return trajs, ew')"
    by (simp_all add: msu gen)
  from generate_trajectories_Return_stop[OF g] have stop: "stop_now su trajs" .
  have "\<forall>K. eval_n_episodes c = Some K \<longrightarrow> K \<le> int (length trajs)"
    using su stop
    by (auto simp: make_sample_until_def stop_now_def min_episodes_def split: option.splits)
  moreover have "\<forall>T. eval_n_timesteps c = Some T \<longrightarrow> T \<le> int (total_timesteps trajs)"
    using su stop
    by (auto simp: make_sample_until_def stop_now_def min_timesteps_def split: option.splits)
  ultimately show ?thesis using g st
    by - (rule exI[of _ policy], rule exI[of _ venv], rule exI[of _ su],
          rule exI[of _ "(envw w)\<lparr>sim := s0\<rparr>"], rule exI[of _ trajs], rule exI[of _ ew'], simp)
qed

theorem stopping_condition_is_lower_bound_witness:
  "x_make_sample_until (demo_ext (Suc (Suc (Suc 0)))) = make_sample_until
   \<and> x_generate_trajectories (demo_ext (Suc (Suc (Suc 0))))
       = generate_trajectories (Suc (Suc (Suc 0)))
   \<and> eval_policy (demo_ext (Suc (Suc (Suc 0)))) demo_config demo_state =
     (Return \<lparr>n_traj = 2, return_mean = 10, return_std = Some 0, len_mean = 2, len_std = Some 0\<rparr>,
      \<lparr>calls =
         [MakeDirs ''out'', BuildSacredSymlink ''out'', SetVerbosity,
          LogInfo ''Logging to out'', MakeVecEnv, Acquired RewardRes,
          LogInfo ''Wrapped env in reward const from None.'',
          Acquired PolicyRes, Released PolicyRes None, Released RewardRes None],
       exit_stack = [],
       envw = \<lparr>effects = [Render, Render, Render], sim = [0, 0], last_obs = [0, 0]\<rparr>\<rparr>)
   \<and> (\<exists>policy (venv :: (nat list, nat, nat) venv) su ew trajs ew'.
           generate_trajectories (Suc (Suc (Suc 0))) policy venv su ew = (Return trajs, ew')
         \<and> x_rollout_stats (demo_ext (Suc (Suc (Suc 0)))) trajs
             = Inr \<lparr>n_traj = 2, return_mean = 10, return_std = Some 0, len_mean = 2, len_std = Some 0\<rparr>
         \<and> 2 \<le> int (length trajs))"
proof -
  have a: "x_make_sample_until (demo_ext (Suc (Suc (Suc 0)))) = make_sample_until"
    and b: "x_generate_trajectories (demo_ext (Suc (Suc (Suc 0))))
              = generate_trajectories (Suc (Suc (Suc 0)))"
    by (simp_all add: demo_ext_def)
  have c: "eval_n_episodes demo_config = Some 2" by (simp add: demo_config_def)
  from stopping_condition_is_lower_bound [OF a b demo_run] c
  have "\<exists>policy (venv :: (nat list, nat, nat) venv) su ew trajs ew'.
           generate_trajectories (Suc (Suc (Suc 0))) policy venv su ew = (Return trajs, ew')
         \<and> x_rollout_stats (demo_ext (Suc (Suc (Suc 0)))) trajs
             = Inr \<lparr>n_traj = 2, return_mean = 10, return_std = Some 0, len_mean = 2, len_std = Some 0\<rparr>
         \<and> 2 \<le> int (length trajs)"
    by fastforce
  with a b demo_run show ?thesis by blast
qed



section \<open>The reward override: properties\<close>

lemma reward_step_eq:
  "venv_step (RewardVecEnvWrapper v rfn) acts w =
     (case venv_step_wait v acts w of
        (Return native, w1) \<Rightarrow>
          (Return (override_rewards rfn (last_obs w) acts native),
           w1\<lparr>last_obs := map fst native\<rparr>)
      | (Raise e, w1) \<Rightarrow> (Raise e, w1)
      | (Diverge, w1) \<Rightarrow> (Diverge, w1))"
  by (simp add: venv_step_def bindM_def recall_obs_def remember_obs_def ret_def
        split: prod.splits result.splits)

lemma reward_reset_eq:
  "venv_reset (RewardVecEnvWrapper v rfn) w =
     (case venv_reset v w of
        (Return obs, w1) \<Rightarrow> (Return obs, w1\<lparr>last_obs := obs\<rparr>)
      | (Raise e, w1) \<Rightarrow> (Raise e, w1)
      | (Diverge, w1) \<Rightarrow> (Diverge, w1))"
  by (simp add: bindM_def remember_obs_def ret_def split: prod.splits result.splits)

lemma map_zip3_take:
  "map (\<lambda>(x, y, z). f z) (zip xs (zip ys zs)) = take (min (length xs) (length ys)) (map f zs)"
proof (induction xs arbitrary: ys zs)
  case Nil
  then show ?case by simp
next
  case (Cons x xs)
  then show ?case by (cases ys; cases zs) auto
qed

lemma map_fst_override:
  "map fst (override_rewards rfn old acts res)
     = take (min (length old) (length acts)) (map fst res)"
proof -
  have "map fst (override_rewards rfn old acts res)
          = map (\<lambda>(x, y, z). fst z) (zip old (zip acts res))"
    by (auto simp: override_rewards_def)
  then show ?thesis by (simp add: map_zip3_take)
qed

lemma length_override:
  "length (override_rewards rfn old acts res)
     = min (length old) (min (length acts) (length res))"
  by (simp add: override_rewards_def)

lemma nth_override:
  "i < length old \<Longrightarrow> i < length acts \<Longrightarrow> i < length res \<Longrightarrow>
     override_rewards rfn old acts res ! i
       = (fst (res ! i), rfn (old ! i) (acts ! i) (fst (res ! i)), snd (snd (res ! i)))"
  by (simp add: override_rewards_def split_beta)

lemma record_step_cur: "record_step sl a ob r d trajs = (sl', trajs') \<Longrightarrow> cur sl' = ob"
  by (auto simp: record_step_def Let_def split: if_splits)

lemma record_steps_cur:
  "record_steps zs trajs = (slots', trajs') \<Longrightarrow> map cur slots' = map (\<lambda>(sl, a, ob, r, d). ob) zs"
proof (induction zs trajs arbitrary: slots' trajs' rule: record_steps.induct)
  case (1 trajs)
  then show ?case by simp
next
  case (2 sl a ob r d rest trajs)
  obtain sl1 trajs1 where one: "record_step sl a ob r d trajs = (sl1, trajs1)"
    by (cases "record_step sl a ob r d trajs")
  obtain sls2 trajs2 where more: "record_steps rest trajs1 = (sls2, trajs2)"
    by (cases "record_steps rest trajs1")
  from "2.prems" one more have res: "slots' = sl1 # sls2" by auto
  from "2.IH"[OF one[symmetric] more] record_step_cur[OF one] res show ?case by simp
qed

lemma record_step_rewarded:
  assumes "record_step sl a ob r d trajs = (sl', trajs')"
    and "r = rfn (cur sl) a ob"
    and "\<forall>s \<in> set (partial sl). rewarded rfn s"
    and "\<forall>t \<in> set trajs. \<forall>s \<in> set t. rewarded rfn s"
  shows "(\<forall>s \<in> set (partial sl'). rewarded rfn s) \<and> (\<forall>t \<in> set trajs'. \<forall>s \<in> set t. rewarded rfn s)"
  using assms by (auto simp: record_step_def Let_def rewarded_def split: if_splits)

lemma record_steps_rewarded:
  assumes "record_steps zs trajs = (slots', trajs')"
    and "\<forall>(sl, a, ob, r, d) \<in> set zs.
           r = rfn (cur sl) a ob \<and> (\<forall>s \<in> set (partial sl). rewarded rfn s)"
    and "\<forall>t \<in> set trajs. \<forall>s \<in> set t. rewarded rfn s"
  shows "(\<forall>sl \<in> set slots'. \<forall>s \<in> set (partial sl). rewarded rfn s)
       \<and> (\<forall>t \<in> set trajs'. \<forall>s \<in> set t. rewarded rfn s)"
  using assms
proof (induction zs trajs arbitrary: slots' trajs' rule: record_steps.induct)
  case (1 trajs)
  then show ?case by simp
next
  case (2 sl a ob r d rest trajs)
  obtain sl1 trajs1 where one: "record_step sl a ob r d trajs = (sl1, trajs1)"
    by (cases "record_step sl a ob r d trajs")
  obtain sls2 trajs2 where more: "record_steps rest trajs1 = (sls2, trajs2)"
    by (cases "record_steps rest trajs1")
  from "2.prems"(1) one more have res: "slots' = sl1 # sls2" "trajs' = trajs2" by auto
  from "2.prems"(2) have r: "r = rfn (cur sl) a ob"
    and p: "\<forall>s \<in> set (partial sl). rewarded rfn s" by auto
  note h = record_step_rewarded[OF one r p "2.prems"(3)]
  from "2.prems"(2) have rest: "\<forall>(sl, a, ob, r, d) \<in> set rest.
           r = rfn (cur sl) a ob \<and> (\<forall>s \<in> set (partial sl). rewarded rfn s)" by simp
  from "2.IH"[OF one[symmetric] more rest] h res show ?case by simp
qed

lemma zipped_override_rewarded:
  assumes inv: "take (length slots) old = map cur slots"
  shows "\<forall>(sl, a, ob, r, d) \<in> set (zip slots (zip (map (\<lambda>sl. policy (cur sl)) slots)
                                      (override_rewards rfn old (map (\<lambda>sl. policy (cur sl)) slots) native))).
           r = rfn (cur sl) a ob"
proof -
  have len: "length slots \<le> length old"
    using arg_cong[OF inv, of length] by simp
  have nth: "old ! i = cur (slots ! i)" if "i < length slots" for i
  proof -
    have "take (length slots) old ! i = map cur slots ! i" by (simp only: inv)
    with that show ?thesis by simp
  qed
  show ?thesis
    using len
    by (auto simp: in_set_conv_nth length_override nth_override nth)
qed


lemma settle_cur: "cur (settle su trajs sl) = cur sl"
  by (simp add: settle_def)

lemma settle_partial: "partial (settle su trajs sl) = partial sl"
  by (simp add: settle_def)

lemma record_steps_length: "record_steps zs trajs = (slots', trajs') \<Longrightarrow> length slots' = length zs"
  using record_steps_cur[of zs trajs slots' trajs'] by (auto dest: arg_cong[of _ _ length])

lemma reward_step_Return:
  assumes "venv_step (RewardVecEnvWrapper v rfn) acts w = (Return res, w1)"
  obtains native w0 where "venv_step_wait v acts w = (Return native, w0)"
    "res = override_rewards rfn (last_obs w) acts native"
    "w1 = w0\<lparr>last_obs := map fst native\<rparr>"
  using assms unfolding reward_step_eq
  by (auto split: prod.splits result.splits)

lemma rollout_loop_rewarded:
  "rollout_loop n policy (RewardVecEnvWrapper v rfn) su slots trajs w = (Return T, w') \<Longrightarrow>
   take (length slots) (last_obs w) = map cur slots \<Longrightarrow>
   \<forall>sl \<in> set slots. \<forall>s \<in> set (partial sl). rewarded rfn s \<Longrightarrow>
   \<forall>t \<in> set trajs. \<forall>s \<in> set t. rewarded rfn s \<Longrightarrow>
   \<forall>t \<in> set T. \<forall>s \<in> set t. rewarded rfn s"
proof (induction n arbitrary: slots trajs w)
  case 0
  then show ?case by (auto simp: ret_def diverge_def split: if_splits)
next
  case (Suc n)
  show ?case
  proof (cases "finished su slots trajs")
    case True
    with Suc.prems show ?thesis by (auto simp: ret_def)
  next
    case False
    from Suc.prems(1) False show ?thesis
    proof (cases rule: rollout_loop_step_cases)
      case (stepped res w1 slots' trajs')
      let ?acts = "map (\<lambda>sl. policy (cur sl)) slots"
      from stepped(1) obtain native w0 where
        res: "res = override_rewards rfn (last_obs w) ?acts native"
        and w1: "w1 = w0\<lparr>last_obs := map fst native\<rparr>"
        by (rule reward_step_Return)
      have z: "\<forall>(sl, a, ob, r, d) \<in> set (zip slots (zip ?acts res)).
           r = rfn (cur sl) a ob \<and> (\<forall>s \<in> set (partial sl). rewarded rfn s)"
        using zipped_override_rewarded[OF Suc.prems(2), of policy rfn native] Suc.prems(3)
        unfolding res by (auto dest: set_zip_leftD)
      from record_steps_rewarded[OF stepped(2) z Suc.prems(4)]
      have p': "\<forall>sl \<in> set (map (settle su trajs') slots'). \<forall>s \<in> set (partial sl). rewarded rfn s"
        and t': "\<forall>t \<in> set trajs'. \<forall>s \<in> set t. rewarded rfn s"
        by (auto simp: settle_partial)
      have len: "length slots \<le> length (last_obs w)"
        using arg_cong[OF Suc.prems(2), of length] by simp
      have "map cur slots' = map (\<lambda>(sl, a, ob, r, d). ob) (zip slots (zip ?acts res))"
        by (rule record_steps_cur[OF stepped(2)])
      also have "\<dots> = map (\<lambda>(x, y, z). fst z) (zip slots (zip ?acts res))"
        by (auto simp: split_beta)
      also have "\<dots> = take (length slots) (map fst res)"
        by (simp add: map_zip3_take)
      also have "\<dots> = take (length slots) (map fst native)"
        using len by (simp add: res map_fst_override min_absorb2)
      finally have c: "map cur slots' = take (length slots) (map fst native)" .
      have l: "length slots' \<le> length slots"
        using record_steps_length[OF stepped(2)] by simp
      have "take (length slots') (take (length slots) (map fst native)) = map cur slots'"
        using arg_cong[OF c, of "take (length slots')"] by simp
      then have "take (length slots') (map fst native) = map cur slots'"
        using l by (simp add: min_absorb1)
      then have inv': "take (length (map (settle su trajs') slots')) (last_obs w1)
                     = map cur (map (settle su trajs') slots')"
        by (simp add: w1 settle_cur comp_def)
      from Suc.IH[OF stepped(3) inv' p' t'] show ?thesis .
    qed simp_all
  qed
qed

lemma generate_trajectories_rewarded:
  assumes "generate_trajectories fuel policy (RewardVecEnvWrapper v rfn) su w = (Return T, w')"
  shows "\<forall>t \<in> set T. \<forall>s \<in> set t. rewarded rfn s"
proof -
  from assms obtain obs w1 where
    reset: "venv_reset (RewardVecEnvWrapper v rfn) w = (Return obs, w1)"
    and loop: "rollout_loop fuel policy (RewardVecEnvWrapper v rfn) su
                 (map (start_slot su) obs) [] w1 = (Return T, w')"
    by (auto simp: generate_trajectories_def bindM_Return)
  from reset have "last_obs w1 = obs"
    unfolding reward_reset_eq by (auto split: prod.splits result.splits)
  then have "take (length (map (start_slot su) obs)) (last_obs w1)
               = map cur (map (start_slot su) obs)"
    by (simp add: start_slot_def comp_def)
  from rollout_loop_rewarded[OF loop this] show ?thesis
    by (simp add: start_slot_def)
qed


subsection \<open>The rollout with and without the reward wrapper\<close>

lemma obs_indep_bindM:
  "obs_indep m \<Longrightarrow> (\<And>x. obs_indep (f x)) \<Longrightarrow> obs_indep (bindM m f)"
  by (auto simp: obs_indep_def bindM_def split: prod.splits result.splits)

lemma obs_indep_ret: "obs_indep (ret x)"
  by (simp add: obs_indep_def ret_def)

lemma obs_indep_lift: "obs_indep (lift v)"
  by (simp add: obs_indep_def lift_def split: sum.splits)

lemma obs_indep_time_sleep: "obs_indep (time_sleep d)"
  unfolding obs_indep_def time_sleep_def
  by (intro allI) (case_tac w, simp)

lemma obs_indep_base_render: "obs_indep (base_render b)"
  unfolding obs_indep_def base_render_def
  by (intro allI) (case_tac w, simp split: option.splits)

lemma obs_indep_base_step_wait: "obs_indep (base_step_wait b acts)"
  unfolding obs_indep_def base_step_wait_def
  by (intro allI) (case_tac w, simp split: prod.splits sum.splits)

lemma obs_indep_base_reset: "obs_indep (base_reset b)"
  unfolding obs_indep_def base_reset_def
  by (intro allI) (case_tac w, simp split: prod.splits sum.splits)

lemma obs_indep_render: "obs_indep (venv_render v)"
  by (induction v) (simp_all add: obs_indep_base_render)

lemma obs_indep_step_wait: "plain v \<Longrightarrow> obs_indep (venv_step_wait v acts)"
  by (induction v)
     (auto intro!: obs_indep_bindM obs_indep_ret obs_indep_lift obs_indep_time_sleep
        obs_indep_render obs_indep_base_step_wait)

lemma obs_indep_reset: "plain v \<Longrightarrow> obs_indep (venv_reset v)"
  by (induction v)
     (auto intro!: obs_indep_bindM obs_indep_ret obs_indep_render obs_indep_base_reset)

lemma strip_slot_fields:
  "strip_slot a = strip_slot b \<Longrightarrow>
     cur a = cur b \<and> live a = live b \<and> fresh a = fresh b
   \<and> map strip (partial a) = map strip (partial b)"
  by (cases a; cases b) (simp add: strip_slot_def)

lemma strip_slot_eqI:
  "cur a = cur b \<Longrightarrow> live a = live b \<Longrightarrow> fresh a = fresh b \<Longrightarrow>
   map strip (partial a) = map strip (partial b) \<Longrightarrow> strip_slot a = strip_slot b"
  by (cases a; cases b) (simp add: strip_slot_def)

lemma record_step_sim:
  assumes "strip_slot sl = strip_slot sl0"
    and "map (map strip) trajs = map (map strip) trajs0"
    and "record_step sl a ob r d trajs = (sl', trajs')"
    and "record_step sl0 a ob r0 d trajs0 = (sl0', trajs0')"
  shows "strip_slot sl' = strip_slot sl0' \<and> map (map strip) trajs' = map (map strip) trajs0'"
proof -
  note f = strip_slot_fields[OF assms(1)]
  from assms(2-4) f show ?thesis
    by (auto simp: record_step_def Let_def strip_def intro!: strip_slot_eqI split: if_splits)
qed

lemma record_steps_sim:
  assumes "list_all2 zrel zs zs0"
    and "map (map strip) trajs = map (map strip) trajs0"
    and "record_steps zs trajs = (slots', trajs')"
    and "record_steps zs0 trajs0 = (slots0', trajs0')"
  shows "map strip_slot slots' = map strip_slot slots0'
       \<and> map (map strip) trajs' = map (map strip) trajs0'"
  using assms
proof (induction zs zs0 arbitrary: trajs trajs0 slots' trajs' slots0' trajs0' rule: list_all2_induct)
  case Nil
  then show ?case by simp
next
  case (Cons z zs z0 zs0)
  obtain sl a ob r d where z: "z = (sl, a, ob, r, d)" by (cases z)
  obtain sl0 a0 ob0 r0 d0 where z0: "z0 = (sl0, a0, ob0, r0, d0)" by (cases z0)
  from Cons.hyps(1) z z0 have rel: "strip_slot sl = strip_slot sl0" "a0 = a" "ob0 = ob" "d0 = d"
    by (auto simp: zrel_def)
  obtain sl1 trajs1 where one: "record_step sl a ob r d trajs = (sl1, trajs1)"
    by (cases "record_step sl a ob r d trajs")
  obtain sls2 trajs2 where more: "record_steps zs trajs1 = (sls2, trajs2)"
    by (cases "record_steps zs trajs1")
  obtain sl10 trajs10 where one0: "record_step sl0 a ob r0 d trajs0 = (sl10, trajs10)"
    by (cases "record_step sl0 a ob r0 d trajs0")
  obtain sls20 trajs20 where more0: "record_steps zs0 trajs10 = (sls20, trajs20)"
    by (cases "record_steps zs0 trajs10")
  from Cons.prems(2) z one more have res: "slots' = sl1 # sls2" "trajs' = trajs2" by auto
  from Cons.prems(3) z0 rel one0 more0 have res0: "slots0' = sl10 # sls20" "trajs0' = trajs20"
    by auto
  note h = record_step_sim[OF rel(1) Cons.prems(1) one one0]
  from Cons.IH[OF _ more more0] h res res0 show ?case by simp
qed

lemma finished_sim:
  assumes "map strip_slot slots = map strip_slot slots0"
    and "map (map strip) trajs = map (map strip) trajs0"
  shows "finished su slots trajs = finished su slots0 trajs0"
proof -
  have "map length (map (map strip) trajs) = map length (map (map strip) trajs0)"
    by (simp only: assms(2))
  then have l: "map length trajs = map length trajs0" by (simp add: comp_def)
  have "length (map length trajs) = length (map length trajs0)" by (simp only: l)
  then have n: "length trajs = length trajs0" by simp
  have "map live (map strip_slot slots) = map live (map strip_slot slots0)"
    by (simp only: assms(1))
  then have "map live slots = map live slots0" by (simp add: comp_def strip_slot_def)
  then have "set (map live slots) = set (map live slots0)" by simp
  then have "(\<exists>sl \<in> set slots. live sl) = (\<exists>sl \<in> set slots0. live sl)"
    by (auto simp: image_iff)
  with l n show ?thesis by (simp add: finished_def stop_now_def total_timesteps_def)
qed


lemma stop_now_sim:
  assumes "map (map strip) trajs = map (map strip) trajs0"
  shows "stop_now su trajs = stop_now su trajs0"
proof -
  have "map length (map (map strip) trajs) = map length (map (map strip) trajs0)"
    by (simp only: assms)
  then have l: "map length trajs = map length trajs0" by (simp add: comp_def)
  have "length (map length trajs) = length (map length trajs0)" by (simp only: l)
  then have "length trajs = length trajs0" by simp
  with l show ?thesis by (simp add: stop_now_def total_timesteps_def)
qed

lemma strip_slot_settle: "strip_slot (settle su trajs sl) = settle su trajs (strip_slot sl)"
  by (cases sl) (simp add: settle_def strip_slot_def)

lemma settle_sim:
  assumes "map strip_slot slots = map strip_slot slots0"
    and "map (map strip) trajs = map (map strip) trajs0"
  shows "map strip_slot (map (settle su trajs) slots) = map strip_slot (map (settle su trajs0) slots0)"
proof -
  have "settle su trajs = (settle su trajs0 :: ('a, 'b) slot \<Rightarrow> ('a, 'b) slot)"
    by (rule ext) (simp add: settle_def stop_now_sim[OF assms(2)])
  then have "map strip_slot (map (settle su trajs) slots)
               = map (settle su trajs0) (map strip_slot slots)"
    by (simp add: comp_def strip_slot_settle)
  also have "\<dots> = map (settle su trajs0) (map strip_slot slots0)"
    by (simp only: assms(1))
  finally show ?thesis by (simp add: comp_def strip_slot_settle)
qed

lemma zipped_override_rel:
  assumes len: "length slots \<le> length old"
    and eq: "map strip_slot slots = map strip_slot slots0"
    and acts: "length acts = length slots"
  shows "list_all2 zrel (zip slots (zip acts (override_rewards rfn old acts native)))
                        (zip slots0 (zip acts native))"
proof -
  have l0: "length slots0 = length slots"
    using arg_cong[OF eq, of length] by simp
  have nth: "strip_slot (slots ! i) = strip_slot (slots0 ! i)" if "i < length slots" for i
  proof -
    have "map strip_slot slots ! i = map strip_slot slots0 ! i" by (simp only: eq)
    with that l0 show ?thesis by simp
  qed
  show ?thesis
    using len acts l0
    by (auto simp: list_all2_conv_all_nth length_override nth_override nth zrel_def split_beta)
qed

lemma rollout_loop_sim:
  assumes pl: "plain v"
  shows "rollout_loop n policy (RewardVecEnvWrapper v rfn) su slots trajs w = (Return T, w') \<Longrightarrow>
     take (length slots) (last_obs w) = map cur slots \<Longrightarrow>
     map strip_slot slots = map strip_slot slots0 \<Longrightarrow>
     map (map strip) trajs = map (map strip) trajs0 \<Longrightarrow>
     \<exists>T0 w0'. rollout_loop n policy v su slots0 trajs0 (w\<lparr>last_obs := L0\<rparr>) = (Return T0, w0')
        \<and> map (map strip) T = map (map strip) T0"
proof (induction n arbitrary: slots trajs w slots0 trajs0 L0)
  case 0
  from "0.prems"(1) have f: "finished su slots trajs" and T: "T = trajs"
    by (auto simp: ret_def diverge_def split: if_splits)
  from f finished_sim[OF "0.prems"(3,4)] have "finished su slots0 trajs0" by simp
  with T "0.prems"(4) show ?case by (simp add: ret_def)
next
  case (Suc n)
  note fs = finished_sim[OF Suc.prems(3,4), of su]
  show ?case
  proof (cases "finished su slots trajs")
    case True
    with Suc.prems(1) have T: "T = trajs" by (simp add: ret_def)
    from True fs have "finished su slots0 trajs0" by simp
    with T Suc.prems(4) show ?thesis by (simp add: ret_def)
  next
    case False
    with fs have nf0: "\<not> finished su slots0 trajs0" by simp
    from Suc.prems(1) False show ?thesis
    proof (cases rule: rollout_loop_step_cases)
      case (stepped res w1 slots' trajs')
      let ?acts = "map (\<lambda>sl. policy (cur sl)) slots"
      from stepped(1) obtain native wA where
        inner: "venv_step_wait v ?acts w = (Return native, wA)"
        and res: "res = override_rewards rfn (last_obs w) ?acts native"
        and w1: "w1 = wA\<lparr>last_obs := map fst native\<rparr>"
        by (rule reward_step_Return)
      have curs: "map cur slots0 = map cur slots"
      proof -
        have "map cur (map strip_slot slots0) = map cur (map strip_slot slots)"
          by (simp only: Suc.prems(3))
        then show ?thesis by (simp add: comp_def strip_slot_def)
      qed
      have acts0: "map (\<lambda>sl. policy (cur sl)) slots0 = ?acts"
      proof -
        have "map policy (map cur slots0) = map policy (map cur slots)" by (simp only: curs)
        then show ?thesis by (simp add: comp_def)
      qed
      have step0: "venv_step v ?acts (w\<lparr>last_obs := L0\<rparr>) = (Return native, wA\<lparr>last_obs := L0\<rparr>)"
        using obs_indep_step_wait[OF pl, of ?acts] inner
        by (simp add: obs_indep_def venv_step_def)
      obtain slots0' trajs0' where rec0:
        "record_steps (zip slots0 (zip ?acts native)) trajs0 = (slots0', trajs0')"
        by (cases "record_steps (zip slots0 (zip ?acts native)) trajs0")
      have unfold0: "rollout_loop (Suc n) policy v su slots0 trajs0 (w\<lparr>last_obs := L0\<rparr>)
          = rollout_loop n policy v su (map (settle su trajs0') slots0') trajs0'
              (wA\<lparr>last_obs := L0\<rparr>)"
        using nf0 step0 rec0 by (simp add: Let_def bindM_def acts0)
      have len: "length slots \<le> length (last_obs w)"
        using arg_cong[OF Suc.prems(2), of length] by simp
      have rel: "list_all2 zrel (zip slots (zip ?acts res)) (zip slots0 (zip ?acts native))"
        unfolding res by (rule zipped_override_rel[OF len Suc.prems(3)]) simp
      from record_steps_sim[OF rel Suc.prems(4) stepped(2) rec0]
      have s': "map strip_slot slots' = map strip_slot slots0'"
        and t': "map (map strip) trajs' = map (map strip) trajs0'" by simp_all
      note st' = settle_sim[OF s' t', of su]
      have "map cur slots' = map (\<lambda>(sl, a, ob, r, d). ob) (zip slots (zip ?acts res))"
        by (rule record_steps_cur[OF stepped(2)])
      also have "\<dots> = map (\<lambda>(x, y, z). fst z) (zip slots (zip ?acts res))"
        by (auto simp: split_beta)
      also have "\<dots> = take (length slots) (map fst res)"
        by (simp add: map_zip3_take)
      also have "\<dots> = take (length slots) (map fst native)"
        using len by (simp add: res map_fst_override min_absorb2)
      finally have c: "map cur slots' = take (length slots) (map fst native)" .
      have l: "length slots' \<le> length slots"
        using record_steps_length[OF stepped(2)] by simp
      have "take (length slots') (take (length slots) (map fst native)) = map cur slots'"
        using arg_cong[OF c, of "take (length slots')"] by simp
      then have "take (length slots') (map fst native) = map cur slots'"
        using l by (simp add: min_absorb1)
      then have inv': "take (length (map (settle su trajs') slots')) (last_obs w1)
                     = map cur (map (settle su trajs') slots')"
        by (simp add: w1 settle_cur comp_def)
      from Suc.IH[OF stepped(3) inv' st' t', of L0]
      show ?thesis unfolding unfold0 by (simp add: w1)
    qed simp_all
  qed
qed

lemma generate_trajectories_sim:
  assumes pl: "plain v"
    and run: "generate_trajectories fuel policy (RewardVecEnvWrapper v rfn) su w = (Return T, w')"
  shows "\<exists>T0 w0'. generate_trajectories fuel policy v su w = (Return T0, w0')
           \<and> map (map strip) T = map (map strip) T0"
proof -
  from run obtain obs w1 where
    reset: "venv_reset (RewardVecEnvWrapper v rfn) w = (Return obs, w1)"
    and loop: "rollout_loop fuel policy (RewardVecEnvWrapper v rfn) su
                 (map (start_slot su) obs) [] w1 = (Return T, w')"
    by (auto simp: generate_trajectories_def bindM_Return)
  from reset obtain wA where reset0: "venv_reset v w = (Return obs, wA)"
    and w1: "w1 = wA\<lparr>last_obs := obs\<rparr>"
    unfolding reward_reset_eq by (auto split: prod.splits result.splits)
  have inv: "take (length (map (start_slot su) obs)) (last_obs w1)
               = map cur (map (start_slot su) obs)"
    by (simp add: w1 start_slot_def comp_def)
  from rollout_loop_sim[OF pl loop inv refl refl, of "last_obs wA"]
  obtain T0 w0' where
    "rollout_loop fuel policy v su (map (start_slot su) obs) [] wA = (Return T0, w0')"
    and "map (map strip) T = map (map strip) T0"
    by (auto simp: w1)
  with reset0 show ?thesis
    by (auto simp: generate_trajectories_def bindM_def)
qed


lemma plain_rendered_venv: "plain (rendered_venv c b)"
  by (simp add: rendered_venv_def)

lemma eval_policy_Return_rewarded:
  assumes rt: "reward_type c = Some rt" and run: "eval_policy x c w = (Return st, w')"
  obtains b s0 reward_fn_ctx reward_fn policy_ctx policy su trajs ew' where
    "x_make_vec_env x (env_name c) (num_vec c) (seed c) (parallel c) (log_dir c)
               (max_episode_steps c) = Inr (b, s0)"
    "x_load_reward x rt (reward_path c) (rendered_venv c b) = Inr reward_fn_ctx"
    "ctx_enter reward_fn_ctx = Inr reward_fn"
    "x_load_policy x (policy_type c) (policy_path c)
        (RewardVecEnvWrapper (rendered_venv c b) reward_fn) = Inr policy_ctx"
    "ctx_enter policy_ctx = Inr policy"
    "x_generate_trajectories x policy (RewardVecEnvWrapper (rendered_venv c b) reward_fn) su
        ((envw w)\<lparr>sim := s0\<rparr>) = (Return trajs, ew')"
    "x_rollout_stats x trajs = Inr st"
  using eval_policy_Return[OF run] rt
  by (auto simp: wrapped_venv_def)

text \<open>
  Claim C1. With the reward wrapper and the rollout engine of the spec: when a reward type
  is given, in a run of \<open>eval_policy\<close> that returns, the engine ran on the reward wrapper
  around the environment built so far, with the reward function that was loaded from the
  reward type and path and entered; in every trajectory it returned, the reward of every
  step is the value of that reward function on the step's observation, action and next
  observation (so every reward is 5 when the function is constantly 5); and the
  trajectories agree in all but the rewards with those of the same rollout on the
  environment without the reward wrapper.
\<close>

theorem reward_override_in_collected_trajectories:
  fixes x :: "('s, 'o, 'a) ext"
  assumes gen: "x_generate_trajectories x = generate_trajectories fuel"
    and rt: "reward_type c = Some rt"
    and run: "eval_policy x c w = (Return st, w')"
  shows "\<exists>(b :: ('s, 'o, 'a) base_env) s0 reward_fn_ctx reward_fn policy su trajs ew' trajs0 ew0.
           x_make_vec_env x (env_name c) (num_vec c) (seed c) (parallel c) (log_dir c)
               (max_episode_steps c) = Inr (b, s0)
         \<and> x_load_reward x rt (reward_path c) (rendered_venv c b) = Inr reward_fn_ctx
         \<and> ctx_enter reward_fn_ctx = Inr reward_fn
         \<and> generate_trajectories fuel policy (RewardVecEnvWrapper (rendered_venv c b) reward_fn)
               su ((envw w)\<lparr>sim := s0\<rparr>) = (Return trajs, ew')
         \<and> x_rollout_stats x trajs = Inr st
         \<and> (\<forall>t \<in> set trajs. \<forall>s \<in> set t.
               st_rew s = reward_fn (st_obs s) (st_act s) (st_next_obs s))
         \<and> ((\<forall>s a s'. reward_fn s a s' = 5) \<longrightarrow> (\<forall>t \<in> set trajs. \<forall>s \<in> set t. st_rew s = 5))
         \<and> generate_trajectories fuel policy (rendered_venv c b) su ((envw w)\<lparr>sim := s0\<rparr>)
               = (Return trajs0, ew0)
         \<and> map (map strip) trajs = map (map strip) trajs0"
proof -
  from rt run obtain b s0 reward_fn_ctx reward_fn policy su trajs ew' where
    mk: "x_make_vec_env x (env_name c) (num_vec c) (seed c) (parallel c) (log_dir c)
               (max_episode_steps c) = Inr (b, s0)"
    and lr: "x_load_reward x rt (reward_path c) (rendered_venv c b) = Inr reward_fn_ctx"
    and en: "ctx_enter reward_fn_ctx = Inr reward_fn"
    and g: "x_generate_trajectories x policy (RewardVecEnvWrapper (rendered_venv c b) reward_fn) su
        ((envw w)\<lparr>sim := s0\<rparr>) = (Return trajs, ew')"
    and st: "x_rollout_stats x trajs = Inr st"
    by (rule eval_policy_Return_rewarded)
  from g have g': "generate_trajectories fuel policy
        (RewardVecEnvWrapper (rendered_venv c b) reward_fn) su ((envw w)\<lparr>sim := s0\<rparr>)
          = (Return trajs, ew')"
    by (simp add: gen)
  from generate_trajectories_rewarded[OF g']
  have rew: "\<forall>t \<in> set trajs. \<forall>s \<in> set t.
               st_rew s = reward_fn (st_obs s) (st_act s) (st_next_obs s)"
    by (simp add: rewarded_def)
  then have five: "(\<forall>s a s'. reward_fn s a s' = 5) \<longrightarrow> (\<forall>t \<in> set trajs. \<forall>s \<in> set t. st_rew s = 5)"
    by simp
  from generate_trajectories_sim[OF plain_rendered_venv g'] obtain trajs0 ew0 where
    g0: "generate_trajectories fuel policy (rendered_venv c b) su ((envw w)\<lparr>sim := s0\<rparr>)
               = (Return trajs0, ew0)"
    and same: "map (map strip) trajs = map (map strip) trajs0" by blast
  from mk lr en g' st rew five g0 same show ?thesis
    by - (rule exI[of _ b], rule exI[of _ s0], rule exI[of _ reward_fn_ctx],
          rule exI[of _ reward_fn], rule exI[of _ policy], rule exI[of _ su],
          rule exI[of _ trajs], rule exI[of _ ew'], rule exI[of _ trajs0], rule exI[of _ ew0],
          simp)
qed

theorem reward_override_in_collected_trajectories_witness:
  "x_generate_trajectories (demo_ext (Suc (Suc (Suc 0))))
       = generate_trajectories (Suc (Suc (Suc 0)))
   \<and> reward_type demo_config = Some ''const''
   \<and> eval_policy (demo_ext (Suc (Suc (Suc 0)))) demo_config demo_state =
     (Return \<lparr>n_traj = 2, return_mean = 10, return_std = Some 0, len_mean = 2, len_std = Some 0\<rparr>,
      \<lparr>calls =
         [MakeDirs ''out'', BuildSacredSymlink ''out'', SetVerbosity,
          LogInfo ''Logging to out'', MakeVecEnv, Acquired RewardRes,
          LogInfo ''Wrapped env in reward const from None.'',
          Acquired PolicyRes, Released PolicyRes None, Released RewardRes None],
       exit_stack = [],
       envw = \<lparr>effects = [Render, Render, Render], sim = [0, 0], last_obs = [0, 0]\<rparr>\<rparr>)
   \<and> (\<exists>policy su trajs ew'.
         generate_trajectories (Suc (Suc (Suc 0))) policy
            (RewardVecEnvWrapper (InteractiveRender (BaseVenv demo_env) 0) (\<lambda>s a s'. 5))
            su \<lparr>effects = [], sim = [0, 0], last_obs = []\<rparr> = (Return trajs, ew')
       \<and> (\<forall>t \<in> set trajs. \<forall>s \<in> set t. st_rew s = 5))"
proof -
  have a: "x_generate_trajectories (demo_ext (Suc (Suc (Suc 0))))
              = generate_trajectories (Suc (Suc (Suc 0)))"
    by (simp add: demo_ext_def)
  have b: "reward_type demo_config = Some ''const''" by (simp add: demo_config_def)
  from reward_override_in_collected_trajectories [OF a b demo_run]
  have "\<exists>policy su trajs ew'.
         generate_trajectories (Suc (Suc (Suc 0))) policy
            (RewardVecEnvWrapper (InteractiveRender (BaseVenv demo_env) 0) (\<lambda>s a s'. 5))
            su \<lparr>effects = [], sim = [0, 0], last_obs = []\<rparr> = (Return trajs, ew')
       \<and> (\<forall>t \<in> set trajs. \<forall>s \<in> set t. st_rew s = 5)"
    by (auto simp: demo_ext_def demo_config_def demo_state_def rendered_venv_def
          demo_reward_ctx_def)
  with a b demo_run show ?thesis by blast
qed

text \<open>
  Claim C9. When a reward type is given, in a run of \<open>eval_policy\<close> that returns, the
  policy loader and the rollout engine were handed the reward wrapper around the
  environment built so far: around \<open>InteractiveRender\<close> when \<open>render\<close> is set, around
  the environment of the factory otherwise. A step of that reward wrapper forwards the
  step to the environment inside it and returns the rewards of the reward function, so the
  override holds for every step whatever the render flag; with \<open>render\<close> set, the result
  that \<open>InteractiveRender\<close> gets from the environment of the factory and returns is the
  native one.
\<close>

theorem reward_wrapper_outside_render_wrapper:
  fixes x :: "('s, 'o, 'a) ext"
  assumes rt: "reward_type c = Some rt"
    and run: "eval_policy x c w = (Return st, w')"
  shows "\<exists>(b :: ('s, 'o, 'a) base_env) s0 reward_fn_ctx reward_fn policy_ctx policy su trajs ew'.
           x_make_vec_env x (env_name c) (num_vec c) (seed c) (parallel c) (log_dir c)
               (max_episode_steps c) = Inr (b, s0)
         \<and> x_load_reward x rt (reward_path c) (rendered_venv c b) = Inr reward_fn_ctx
         \<and> ctx_enter reward_fn_ctx = Inr reward_fn
         \<and> x_load_policy x (policy_type c) (policy_path c)
              (RewardVecEnvWrapper (rendered_venv c b) reward_fn) = Inr policy_ctx
         \<and> ctx_enter policy_ctx = Inr policy
         \<and> x_generate_trajectories x policy (RewardVecEnvWrapper (rendered_venv c b) reward_fn)
              su ((envw w)\<lparr>sim := s0\<rparr>) = (Return trajs, ew')
         \<and> (render c \<longrightarrow> rendered_venv c b = InteractiveRender (BaseVenv b) (render_fps c))
         \<and> (\<not> render c \<longrightarrow> rendered_venv c b = BaseVenv b)
         \<and> (\<forall>acts ew res ew2.
               venv_step_wait (RewardVecEnvWrapper (rendered_venv c b) reward_fn) acts ew
                 = (Return res, ew2) \<longrightarrow>
               (\<exists>native ew1.
                   venv_step_wait (rendered_venv c b) acts ew = (Return native, ew1)
                 \<and> (\<exists>ew0. base_step_wait b acts ew = (Return native, ew0))
                 \<and> res = override_rewards reward_fn (last_obs ew) acts native))"
proof -
  from rt run obtain b s0 reward_fn_ctx reward_fn policy_ctx policy su trajs ew' where
    mk: "x_make_vec_env x (env_name c) (num_vec c) (seed c) (parallel c) (log_dir c)
               (max_episode_steps c) = Inr (b, s0)"
    and lr: "x_load_reward x rt (reward_path c) (rendered_venv c b) = Inr reward_fn_ctx"
    and en: "ctx_enter reward_fn_ctx = Inr reward_fn"
    and lp: "x_load_policy x (policy_type c) (policy_path c)
        (RewardVecEnvWrapper (rendered_venv c b) reward_fn) = Inr policy_ctx"
    and ep: "ctx_enter policy_ctx = Inr policy"
    and g: "x_generate_trajectories x policy (RewardVecEnvWrapper (rendered_venv c b) reward_fn) su
        ((envw w)\<lparr>sim := s0\<rparr>) = (Return trajs, ew')"
    by (rule eval_policy_Return_rewarded)
  have step: "\<forall>acts ew res ew2.
               venv_step_wait (RewardVecEnvWrapper (rendered_venv c b) reward_fn) acts ew
                 = (Return res, ew2) \<longrightarrow>
               (\<exists>native ew1.
                   venv_step_wait (rendered_venv c b) acts ew = (Return native, ew1)
                 \<and> (\<exists>ew0. base_step_wait b acts ew = (Return native, ew0))
                 \<and> res = override_rewards reward_fn (last_obs ew) acts native)"
  proof (intro allI impI)
    fix acts ew res ew2
    assume "venv_step_wait (RewardVecEnvWrapper (rendered_venv c b) reward_fn) acts ew
                 = (Return res, ew2)"
    then have "venv_step (RewardVecEnvWrapper (rendered_venv c b) reward_fn) acts ew
                 = (Return res, ew2)" by (simp add: venv_step_def)
    then obtain native ew1 where
      inner: "venv_step_wait (rendered_venv c b) acts ew = (Return native, ew1)"
      and res: "res = override_rewards reward_fn (last_obs ew) acts native"
      by (rule reward_step_Return)
    from inner have "\<exists>ew0. base_step_wait b acts ew = (Return native, ew0)"
      by (auto simp: rendered_venv_def bindM_Return ret_eq split: if_splits)
    with inner res show "\<exists>native ew1.
                   venv_step_wait (rendered_venv c b) acts ew = (Return native, ew1)
                 \<and> (\<exists>ew0. base_step_wait b acts ew = (Return native, ew0))
                 \<and> res = override_rewards reward_fn (last_obs ew) acts native"
      by blast
  qed
  have r1: "render c \<longrightarrow> rendered_venv c b = InteractiveRender (BaseVenv b) (render_fps c)"
    and r2: "\<not> render c \<longrightarrow> rendered_venv c b = BaseVenv b"
    by (simp_all add: rendered_venv_def)
  from mk lr en lp ep g r1 r2 step show ?thesis
    by - (rule exI[of _ b], rule exI[of _ s0], rule exI[of _ reward_fn_ctx],
          rule exI[of _ reward_fn], rule exI[of _ policy_ctx], rule exI[of _ policy],
          rule exI[of _ su], rule exI[of _ trajs], rule exI[of _ ew'], simp)
qed

theorem reward_wrapper_outside_render_wrapper_witness:
  "reward_type demo_config = Some ''const''
   \<and> render demo_config
   \<and> eval_policy (demo_ext (Suc (Suc (Suc 0)))) demo_config demo_state =
     (Return \<lparr>n_traj = 2, return_mean = 10, return_std = Some 0, len_mean = 2, len_std = Some 0\<rparr>,
      \<lparr>calls =
         [MakeDirs ''out'', BuildSacredSymlink ''out'', SetVerbosity,
          LogInfo ''Logging to out'', MakeVecEnv, Acquired RewardRes,
          LogInfo ''Wrapped env in reward const from None.'',
          Acquired PolicyRes, Released PolicyRes None, Released RewardRes None],
       exit_stack = [],
       envw = \<lparr>effects = [Render, Render, Render], sim = [0, 0], last_obs = [0, 0]\<rparr>\<rparr>)
   \<and> (\<exists>policy su trajs ew'.
         x_generate_trajectories (demo_ext (Suc (Suc (Suc 0)))) policy
            (RewardVecEnvWrapper (InteractiveRender (BaseVenv demo_env) 0) (\<lambda>s a s'. 5))
            su \<lparr>effects = [], sim = [0, 0], last_obs = []\<rparr> = (Return trajs, ew'))
   \<and> venv_step_wait (RewardVecEnvWrapper (InteractiveRender (BaseVenv demo_env) 0) (\<lambda>s a s'. 5))
        [0, 0] \<lparr>effects = [], sim = [0, 1], last_obs = [0, 1]\<rparr>
       = (Return [(1, 5, False), (0, 5, True)],
          \<lparr>effects = [Render], sim = [1, 0], last_obs = [1, 0]\<rparr>)
   \<and> venv_step_wait (InteractiveRender (BaseVenv demo_env) 0)
        [0, 0] \<lparr>effects = [], sim = [0, 1], last_obs = [0, 1]\<rparr>
       = (Return [(1, 1, False), (0, 1, True)],
          \<lparr>effects = [Render], sim = [1, 0], last_obs = [0, 1]\<rparr>)"
proof -
  have b: "reward_type demo_config = Some ''const''" and r: "render demo_config"
    by (simp_all add: demo_config_def)
  from reward_wrapper_outside_render_wrapper [OF b demo_run]
  have "\<exists>policy su trajs ew'.
         x_generate_trajectories (demo_ext (Suc (Suc (Suc 0)))) policy
            (RewardVecEnvWrapper (InteractiveRender (BaseVenv demo_env) 0) (\<lambda>s a s'. 5))
            su \<lparr>effects = [], sim = [0, 0], last_obs = []\<rparr> = (Return trajs, ew')"
    by (auto simp: demo_ext_def demo_config_def demo_state_def rendered_venv_def
          demo_reward_ctx_def)
  moreover have "venv_step_wait
        (RewardVecEnvWrapper (InteractiveRender (BaseVenv demo_env) 0) (\<lambda>s a s'. 5))
        [0, 0] \<lparr>effects = [], sim = [0, 1], last_obs = [0, 1]\<rparr>
       = (Return [(1, 5, False), (0, 5, True)],
          \<lparr>effects = [Render], sim = [1, 0], last_obs = [1, 0]\<rparr>)"
    by (simp add: demo_simps recall_obs_def remember_obs_def override_rewards_def)
  moreover have "venv_step_wait (InteractiveRender (BaseVenv demo_env) 0)
        [0, 0] \<lparr>effects = [], sim = [0, 1], last_obs = [0, 1]\<rparr>
       = (Return [(1, 1, False), (0, 1, True)],
          \<lparr>effects = [Render], sim = [1, 0], last_obs = [0, 1]\<rparr>)"
    by (simp add: demo_simps)
  ultimately show ?thesis using b r demo_run by blast
qed


end
